theory Spec2Isabelle
  imports Main "HOL-Library.Char_ord" "HOL-Library.List_Lexorder"
begin

section \<open>Values and strings of the host language\<close>

text \<open>
  The handler is TypeScript, but its registration functions and setters test their
  arguments at run time (\<^verbatim>\<open>typeof e !== 'string'\<close>, \<^verbatim>\<open>Array.isArray\<close>,
  \<^verbatim>\<open>prefixes == null\<close>), so untyped input is a value of \<open>jsval\<close>.

  Text is a list of code units. The model covers the code units below 256 (Latin-1),
  where \<^verbatim>\<open>toLowerCase\<close> keeps the length of a string: one \<open>char\<close> is one code
  unit, and \<open>length\<close> is the \<^verbatim>\<open>.length\<close> of the source.
\<close>

datatype jsval =
    JUndefined
  | JNull
  | JBool bool
  | JNum int
  | JStr string
  | JArr "jsval list"

datatype error =
    Error string      \<comment> \<open>\<^verbatim>\<open>new Error(message)\<close> thrown by the handler itself\<close>
  | TypeError         \<comment> \<open>reading a property of \<^verbatim>\<open>null\<close>\<close>
  | Thrown nat        \<comment> \<open>whatever a host-supplied function threw or rejected with\<close>

definition isString :: "jsval \<Rightarrow> bool" where
  "isString v = (case v of JStr _ \<Rightarrow> True | _ \<Rightarrow> False)"

definition strOf :: "jsval \<Rightarrow> string" where
  "strOf v = (case v of JStr s \<Rightarrow> s | _ \<Rightarrow> [])"

definition isWhiteSpace :: "char \<Rightarrow> bool" where
  \<comment> \<open>\<^verbatim>\<open>\s\<close> of a regular expression, and what \<^verbatim>\<open>trim\<close> strips: TAB, LF, VT, FF, CR,
      SP and NBSP are the members below 256\<close>
  "isWhiteSpace c = ((of_char c :: nat) \<in> {9, 10, 11, 12, 13, 32, 160})"

definition lowerChar :: "char \<Rightarrow> char" where
  \<comment> \<open>A-Z, and the Latin-1 capitals U+00C0-U+00DE without the multiplication sign\<close>
  "lowerChar c =
     (let n = (of_char c :: nat)
      in if (65 \<le> n \<and> n \<le> 90) \<or> (192 \<le> n \<and> n \<le> 222 \<and> n \<noteq> 215)
         then char_of (n + 32) else c)"

definition toLowerCase :: "string \<Rightarrow> string" where
  "toLowerCase s = map lowerChar s"

definition trim :: "string \<Rightarrow> string" where
  "trim s = rev (dropWhile isWhiteSpace (rev (dropWhile isWhiteSpace s)))"

definition startsWith :: "string \<Rightarrow> string \<Rightarrow> bool" where
  "startsWith s t = (take (length t) s = t)"

definition slice :: "string \<Rightarrow> nat \<Rightarrow> string" where
  \<comment> \<open>\<^verbatim>\<open>s.slice(n)\<close> for \<open>n \<ge> 0\<close>: empty once \<open>n\<close> passes the end\<close>
  "slice s n = drop n s"

definition boundaryTest :: "string \<Rightarrow> bool" where
  \<comment> \<open>\<^verbatim>\<open>/^\s|^$/.test(s)\<close>\<close>
  "boundaryTest s = (case s of [] \<Rightarrow> True | c # _ \<Rightarrow> isWhiteSpace c)"

text \<open>
  \<^verbatim>\<open>s.split(/C+/)\<close> for a character class \<open>C\<close>: the pieces between the maximal runs
  of characters of \<open>C\<close>. A run at the start or at the end leaves an empty piece there,
  and the empty string splits into one empty piece.
\<close>

function splitRuns :: "(char \<Rightarrow> bool) \<Rightarrow> string \<Rightarrow> string \<Rightarrow> string list" where
  "splitRuns C piece [] = [rev piece]"
| "splitRuns C piece (c # cs) =
     (if C c then rev piece # splitRuns C [] (dropWhile C cs)
      else splitRuns C (c # piece) cs)"
  by pat_completeness auto
termination
  by (relation "measure (\<lambda>(C, piece, s). length s)")
     (auto simp: less_Suc_eq_le length_dropWhile_le)

definition splitSpaces :: "string \<Rightarrow> string list" where
  \<comment> \<open>\<^verbatim>\<open>s.split(/ +/)\<close>\<close>
  "splitSpaces s = splitRuns (\<lambda>c. c = CHR '' '') [] s"

definition splitWhiteSpace :: "string \<Rightarrow> string list" where
  \<comment> \<open>\<^verbatim>\<open>s.split(/\s+/)\<close>: the split on runs of whitespace that the specification words\<close>
  "splitWhiteSpace s = splitRuns isWhiteSpace [] s"

fun setOrder :: "'a list \<Rightarrow> 'a list \<Rightarrow> 'a list" where
  \<comment> \<open>\<^verbatim>\<open>[...new Set(xs)]\<close>: a value is added at the end unless the set holds it already\<close>
  "setOrder seen [] = seen"
| "setOrder seen (x # xs) = setOrder (if x \<in> set seen then seen else seen @ [x]) xs"

definition uniqueList :: "'a list \<Rightarrow> 'a list" where
  "uniqueList xs = setOrder [] xs"


section \<open>Data model\<close>

text \<open>
  \<^verbatim>\<open>run\<close> and \<^verbatim>\<open>test\<close> are functions supplied by the host. A descriptor holds a
  reference to them (a value of the type \<open>'f\<close>); what a call does is given by the
  environment below. A property that is absent (\<^verbatim>\<open>undefined\<close>) is \<open>None\<close>.
\<close>

record PermFlags =
  disabled :: "bool option"
  ownerOnly :: "bool option"
  adminOnly :: "bool option"
  modOnly :: "bool option"
  inGuilds :: "bool option"
  inDms :: "bool option"
  allowBots :: "bool option"
  botsOnly :: "bool option"
  allowSelf :: "bool option"

record 'f Command = PermFlags +
  command :: string
  aliases :: "string list"
  description :: "string option"
  usage :: "string option"
  run :: 'f

record 'f Task = PermFlags +
  name :: string
  limited :: bool
  test :: 'f
  run :: 'f

text \<open>
  A module as \<^verbatim>\<open>require\<close> returns it, before \<^verbatim>\<open>registerCommandsFolder\<close> has
  looked at it: \<^verbatim>\<open>command\<close> and \<^verbatim>\<open>aliases\<close> may hold any value.
\<close>

record 'f CommandImport = PermFlags +
  command :: jsval
  aliases :: jsval
  description :: "string option"
  usage :: "string option"
  run :: 'f

record FullFlags =
  disabled :: bool
  ownerOnly :: bool
  adminOnly :: bool
  modOnly :: bool
  inGuilds :: bool
  inDms :: bool
  allowBots :: bool
  botsOnly :: bool
  allowSelf :: bool

definition nullish :: "'a option \<Rightarrow> 'a \<Rightarrow> 'a" where
  \<comment> \<open>\<^verbatim>\<open>v ?? d\<close>\<close>
  "nullish v d = (case v of None \<Rightarrow> d | Some x \<Rightarrow> x)"

text \<open>
  \<^verbatim>\<open>defaultCommandValues\<close> and \<^verbatim>\<open>defaultTaskValues\<close> copy every property and fill
  in the absent flags. The permission checks read the flags only, which is the part
  kept here.
\<close>

definition defaultCommandValues :: "'f Command \<Rightarrow> FullFlags" where
  "defaultCommandValues c =
     \<lparr> FullFlags.disabled = nullish (PermFlags.disabled c) False,
       ownerOnly = nullish (PermFlags.ownerOnly c) False,
       adminOnly = nullish (PermFlags.adminOnly c) False,
       modOnly = nullish (PermFlags.modOnly c) False,
       inGuilds = nullish (PermFlags.inGuilds c) True,
       inDms = nullish (PermFlags.inDms c) True,
       allowBots = nullish (PermFlags.allowBots c) False,
       botsOnly = nullish (PermFlags.botsOnly c) False,
       allowSelf = nullish (PermFlags.allowSelf c) False \<rparr>"

definition defaultTaskValues :: "'f Task \<Rightarrow> FullFlags" where
  "defaultTaskValues t =
     \<lparr> FullFlags.disabled = nullish (PermFlags.disabled t) False,
       ownerOnly = nullish (PermFlags.ownerOnly t) False,
       adminOnly = nullish (PermFlags.adminOnly t) False,
       modOnly = nullish (PermFlags.modOnly t) False,
       inGuilds = nullish (PermFlags.inGuilds t) True,
       inDms = nullish (PermFlags.inDms t) True,
       allowBots = nullish (PermFlags.allowBots t) False,
       botsOnly = nullish (PermFlags.botsOnly t) False,
       allowSelf = nullish (PermFlags.allowSelf t) False \<rparr>"

record PermissionChecks =
  passChecks :: bool
  passAdminCheck :: bool
  passModCheck :: bool
  passBotCheck :: bool
  passChannelTypeCheck :: bool
  passOwnerCheck :: bool
  passSelfCheck :: bool

record 'f CommandContext =
  argsOffset :: nat
  args :: string
  argv :: "string list"
  ctxCommand :: string             \<comment> \<open>the property \<^verbatim>\<open>command\<close> of the context\<close>
  ctxPrefix :: string              \<comment> \<open>its property \<^verbatim>\<open>prefix\<close>\<close>
  ctxCommandObj :: "'f Command"    \<comment> \<open>its property \<^verbatim>\<open>commandObj\<close>\<close>

record 'f TaskContext =
  matching :: "'f Task list"
  notMatching :: "'f Task list"

text \<open>
  What the handler reads of a message: its text, the id of its guild (absent in a direct
  message), the author's member object if it is resolved, the author's id and bot flag,
  and the id of the client's own user.
\<close>

record GuildMember =
  administrator :: bool       \<comment> \<open>\<^verbatim>\<open>permissions.has(PermissionFlagsBits.Administrator)\<close>\<close>
  roleIds :: "string list"    \<comment> \<open>the ids in \<^verbatim>\<open>roles.cache\<close>\<close>

record Message =
  content :: string
  guild :: "string option"
  member :: "GuildMember option"
  authorId :: string
  authorBot :: bool
  clientUserId :: string

datatype ModRoles = AllRoles | RoleList "string list"   \<comment> \<open>\<^verbatim>\<open>true\<close>, or an array of role ids\<close>

datatype OwnerId = OwnerBool bool | OwnerString string

record Settings =
  ownerId :: OwnerId
  globalPrefixes :: "string list"
  guildPrefixes :: "string \<rightharpoonup> string list"
  getModRoles :: "string \<Rightarrow> error + ModRoles"

record 'f State =
  settings :: Settings
  commands :: "'f Command list"
  tasks :: "'f Task list"

definition initialSettings :: Settings where
  "initialSettings =
     \<lparr> ownerId = OwnerBool False, globalPrefixes = [[]], guildPrefixes = Map.empty,
       getModRoles = (\<lambda>_. Inr (RoleList [])) \<rparr>"

definition initialState :: "'f State" where
  "initialState = \<lparr> settings = initialSettings, commands = [], tasks = [] \<rparr>"

text \<open>
  The host's side of every call the handler awaits: a call returns a value or throws
  (a promise that rejects). The calls are taken not to change the handler's own settings
  and lists. Every call of a \<^verbatim>\<open>run\<close> function and of \<^verbatim>\<open>members.fetch\<close> is
  recorded, in order, as an event.
\<close>

record 'f Env =
  callTest :: "'f \<Rightarrow> Message \<Rightarrow> error + bool"
  callCommandRun :: "'f \<Rightarrow> Message \<Rightarrow> 'f CommandContext \<Rightarrow> error option"
  callTaskRun :: "'f \<Rightarrow> Message \<Rightarrow> 'f TaskContext \<Rightarrow> error option"
  fetchMember :: "string \<Rightarrow> string \<Rightarrow> error + GuildMember"

datatype 'f event =
    MemberFetched string string
  | CommandRun "'f Command" Message "'f CommandContext"
  | TaskRun "'f Task" Message "'f TaskContext"

datatype 'f CommandMatch =
    NoMatch
  | Match string PermissionChecks "'f Command"

record 'f TaskMatch =
  match :: bool
  tmMatching :: "'f Task list"       \<comment> \<open>the property \<^verbatim>\<open>matching\<close> of the result\<close>
  tmNotMatching :: "'f Task list"    \<comment> \<open>the property \<^verbatim>\<open>notMatching\<close> of the result\<close>

section \<open>Prefix settings\<close>

definition getGlobalPrefixes :: "'f State \<Rightarrow> string list" where
  "getGlobalPrefixes st = globalPrefixes (settings st)"

definition getGuildPrefixes :: "string \<Rightarrow> 'f State \<Rightarrow> string list" where
  "getGuildPrefixes guildId st =
     (case guildPrefixes (settings st) guildId of Some ps \<Rightarrow> ps | None \<Rightarrow> [])"

definition prefixListOf :: "jsval \<Rightarrow> jsval list" where
  \<comment> \<open>\<^verbatim>\<open>Array.isArray(prefixes) ? prefixes : [prefixes]\<close>\<close>
  "prefixListOf prefixes = (case prefixes of JArr xs \<Rightarrow> xs | v \<Rightarrow> [v])"

definition isNullish :: "jsval \<Rightarrow> bool" where
  \<comment> \<open>\<^verbatim>\<open>v == null\<close>\<close>
  "isNullish v = (v = JNull \<or> v = JUndefined)"

definition setGlobalPrefixes :: "jsval \<Rightarrow> 'f State \<Rightarrow> 'f State \<times> (error + string list)" where
  "setGlobalPrefixes prefixes st =
     (if isNullish prefixes
      then (st\<lparr>settings := (settings st)\<lparr>globalPrefixes := [[]]\<rparr>\<rparr>, Inr [[]])
      else
        let prefixList0 = prefixListOf prefixes;
            prefixList = (if length prefixList0 = 0 then prefixList0 @ [JStr []] else prefixList0);
            uniquePrefixList = uniqueList prefixList
        in if \<exists>p \<in> set uniquePrefixList. \<not> isString p
           then (st, Inl (Error ''All prefixes must be strings''))
           else (st\<lparr>settings := (settings st)\<lparr>globalPrefixes := map strOf uniquePrefixList\<rparr>\<rparr>,
                 Inr (map strOf uniquePrefixList)))"

definition setGuildPrefixes :: "string \<Rightarrow> jsval \<Rightarrow> 'f State \<Rightarrow> 'f State \<times> (error + string list)" where
  "setGuildPrefixes guildId prefixes st =
     (let prefixList = prefixListOf prefixes
      in if isNullish prefixes \<or> length prefixList = 0
         then (st\<lparr>settings := (settings st)
                  \<lparr>guildPrefixes := (guildPrefixes (settings st))(guildId := None)\<rparr>\<rparr>, Inr [])
         else
           let uniquePrefixList = uniqueList prefixList
           in if \<exists>p \<in> set uniquePrefixList. \<not> isString p
              then (st, Inl (Error ''All prefixes must be strings''))
              else (st\<lparr>settings := (settings st)
                       \<lparr>guildPrefixes := (guildPrefixes (settings st))
                                           (guildId \<mapsto> map strOf uniquePrefixList)\<rparr>\<rparr>,
                    Inr (map strOf uniquePrefixList)))"


section \<open>Permission checks\<close>

text \<open>
  \<^verbatim>\<open>messageMember.permissions\<close> and \<^verbatim>\<open>messageMember.roles\<close> are read only behind
  \<^verbatim>\<open>Boolean(message.guild) &&\<close> in the admin and the moderator check. Reading them
  when the member is \<^verbatim>\<open>null\<close> throws a \<^verbatim>\<open>TypeError\<close>.
\<close>

definition isAdministrator :: "Message \<Rightarrow> bool" where
  "isAdministrator message =
     (case member message of Some m \<Rightarrow> administrator m | None \<Rightarrow> False)"

definition hasModRole :: "Message \<Rightarrow> ModRoles \<Rightarrow> bool" where
  \<comment> \<open>\<^verbatim>\<open>modRoles === true || messageMember.roles.cache.some((e) => modRoles.includes(e.id))\<close>\<close>
  "hasModRole message modRoles =
     (case modRoles of
        AllRoles \<Rightarrow> True
      | RoleList rs \<Rightarrow>
          (case member message of
             Some m \<Rightarrow> (\<exists>e \<in> set (roleIds m). e \<in> set rs)
           | None \<Rightarrow> False))"

definition lookupModRoles :: "Settings \<Rightarrow> Message \<Rightarrow> error + ModRoles" where
  \<comment> \<open>\<^verbatim>\<open>message.guild ? await settings.getModRoles(message.guild.id) : []\<close>\<close>
  "lookupModRoles s message =
     (case guild message of Some g \<Rightarrow> getModRoles s g | None \<Rightarrow> Inr (RoleList []))"

definition checkCommandPermissions ::
  "Settings \<Rightarrow> 'f Command \<Rightarrow> Message \<Rightarrow> error + PermissionChecks" where
  "checkCommandPermissions s commandObj message =
     (case lookupModRoles s message of
        Inl e \<Rightarrow> Inl e
      | Inr modRoles \<Rightarrow>
          let fullCommandObj = defaultCommandValues commandObj
          in if guild message \<noteq> None \<and> member message = None
                \<and> (FullFlags.adminOnly fullCommandObj \<or> FullFlags.modOnly fullCommandObj)
             then Inl TypeError
             else
               let passAdminCheck =
                     (\<not> FullFlags.adminOnly fullCommandObj
                      \<or> (guild message \<noteq> None \<and> isAdministrator message));
                   passModCheck =
                     (\<not> FullFlags.modOnly fullCommandObj
                      \<or> (guild message \<noteq> None
                          \<and> (isAdministrator message \<or> hasModRole message modRoles)));
                   passBotCheck =
                     (if authorBot message
                      then FullFlags.allowBots fullCommandObj \<or> FullFlags.botsOnly fullCommandObj
                           \<or> authorId message = clientUserId message
                      else \<not> FullFlags.botsOnly fullCommandObj);
                   passChannelTypeCheck =
                     (if guild message \<noteq> None then FullFlags.inGuilds fullCommandObj
                      else FullFlags.inDms fullCommandObj);
                   passOwnerCheck =
                     (\<not> FullFlags.ownerOnly fullCommandObj
                      \<or> ownerId s = OwnerBool True
                      \<or> (ownerId s \<noteq> OwnerBool False
                          \<and> OwnerString (authorId message) = ownerId s));
                   passSelfCheck =
                     (authorId message \<noteq> clientUserId message
                      \<or> FullFlags.allowSelf fullCommandObj);
                   passChecks =
                     (passAdminCheck \<and> passModCheck \<and> passBotCheck \<and> passChannelTypeCheck
                      \<and> passOwnerCheck \<and> passSelfCheck)
               in Inr \<lparr> passChecks = passChecks, passAdminCheck = passAdminCheck,
                        passModCheck = passModCheck, passBotCheck = passBotCheck,
                        passChannelTypeCheck = passChannelTypeCheck,
                        passOwnerCheck = passOwnerCheck, passSelfCheck = passSelfCheck \<rparr>)"

definition checkTaskPermissions ::
  "Settings \<Rightarrow> 'f Task \<Rightarrow> Message \<Rightarrow> error + PermissionChecks" where
  "checkTaskPermissions s taskObj message =
     (case lookupModRoles s message of
        Inl e \<Rightarrow> Inl e
      | Inr modRoles \<Rightarrow>
          if guild message \<noteq> None \<and> member message = None
          then Inl (Error ''Should be unreachable'')
          else
            let fullTaskObj = defaultTaskValues taskObj;
                passAdminCheck =
                  (\<not> FullFlags.adminOnly fullTaskObj
                   \<or> (guild message \<noteq> None \<and> isAdministrator message));
                passModCheck =
                  (\<not> FullFlags.modOnly fullTaskObj
                   \<or> (guild message \<noteq> None
                       \<and> (isAdministrator message \<or> hasModRole message modRoles)));
                passBotCheck =
                  (if authorBot message
                   then FullFlags.allowBots fullTaskObj \<or> FullFlags.botsOnly fullTaskObj
                        \<or> authorId message = clientUserId message
                   else \<not> FullFlags.botsOnly fullTaskObj);
                passChannelTypeCheck =
                  (if guild message \<noteq> None then FullFlags.inGuilds fullTaskObj
                   else FullFlags.inDms fullTaskObj);
                passOwnerCheck =
                  (\<not> FullFlags.ownerOnly fullTaskObj
                   \<or> ownerId s = OwnerBool True
                   \<or> (ownerId s \<noteq> OwnerBool False
                       \<and> OwnerString (authorId message) = ownerId s));
                passSelfCheck =
                  (authorId message \<noteq> clientUserId message
                   \<or> FullFlags.allowSelf fullTaskObj);
                passChecks =
                  (passAdminCheck \<and> passModCheck \<and> passBotCheck \<and> passChannelTypeCheck
                   \<and> passOwnerCheck \<and> passSelfCheck)
            in Inr \<lparr> passChecks = passChecks, passAdminCheck = passAdminCheck,
                     passModCheck = passModCheck, passBotCheck = passBotCheck,
                     passChannelTypeCheck = passChannelTypeCheck,
                     passOwnerCheck = passOwnerCheck, passSelfCheck = passSelfCheck \<rparr>)"

section \<open>checkCommand\<close>

definition variationMatches :: "string \<Rightarrow> string \<Rightarrow> string \<Rightarrow> bool" where
  \<comment> \<open>the condition of the innermost \<^verbatim>\<open>if\<close>\<close>
  "variationMatches text p commandVariation =
     (startsWith (toLowerCase text) (p @ commandVariation)
      \<and> boundaryTest (slice (toLowerCase text) (length (p @ commandVariation))))"

text \<open>
  The three nested loops return from inside at the first hit, so each is a search for
  that hit: over the variations of one command, over the commands for one prefix, over
  the prefixes.
\<close>

fun findVariation :: "string \<Rightarrow> string \<Rightarrow> string list \<Rightarrow> string option" where
  "findVariation text p [] = None"
| "findVariation text p (v # vs) =
     (if variationMatches text p v then Some v else findVariation text p vs)"

fun findCommand :: "string \<Rightarrow> string \<Rightarrow> 'f Command list \<Rightarrow> ('f Command \<times> string) option" where
  "findCommand text p [] = None"
| "findCommand text p (c # cs) =
     (case findVariation text p (Command.command c # Command.aliases c) of
        Some v \<Rightarrow> Some (c, v)
      | None \<Rightarrow> findCommand text p cs)"

fun findPrefix ::
  "string \<Rightarrow> 'f Command list \<Rightarrow> string list \<Rightarrow> (string \<times> 'f Command \<times> string) option" where
  "findPrefix text cs [] = None"
| "findPrefix text cs (p # ps) =
     (case findCommand text p cs of
        Some (c, v) \<Rightarrow> Some (p, c, v)
      | None \<Rightarrow> findPrefix text cs ps)"

definition resolveMember :: "'f Env \<Rightarrow> Message \<Rightarrow> 'f event list \<times> (error + Message)" where
  \<comment> \<open>\<^verbatim>\<open>if (message.guild && !message.member) await message.guild.members.fetch(message.author)\<close>;
      after the fetch \<^verbatim>\<open>message.member\<close> is the fetched member\<close>
  "resolveMember env message =
     (case guild message of
        Some g \<Rightarrow>
          (if member message = None
           then ([MemberFetched g (authorId message)],
                 case fetchMember env g (authorId message) of
                   Inl e \<Rightarrow> Inl e
                 | Inr m \<Rightarrow> Inr (message\<lparr>member := Some m\<rparr>))
           else ([], Inr message))
      | None \<Rightarrow> ([], Inr message))"

definition commandContext :: "Message \<Rightarrow> string \<Rightarrow> 'f Command \<Rightarrow> string \<Rightarrow> 'f CommandContext" where
  "commandContext message p c commandVariation =
     (let offset = length commandVariation + length p;
          a = trim (slice (content message) offset)
      in \<lparr> argsOffset = offset, args = a,
           argv = (if a \<noteq> [] then splitSpaces a else []),
           ctxCommand = commandVariation, ctxPrefix = p, ctxCommandObj = c \<rparr>)"

definition runMatched ::
  "'f Env \<Rightarrow> Settings \<Rightarrow> Message \<Rightarrow> string \<Rightarrow> 'f Command \<Rightarrow> string
     \<Rightarrow> 'f event list \<times> (error + 'f CommandMatch)" where
  \<comment> \<open>the body of the innermost \<^verbatim>\<open>if\<close>\<close>
  "runMatched env s message p c commandVariation =
     (case resolveMember env message of
        (evs, Inl e) \<Rightarrow> (evs, Inl e)
      | (evs, Inr message') \<Rightarrow>
          (case checkCommandPermissions s c message' of
             Inl e \<Rightarrow> (evs, Inl e)
           | Inr checks \<Rightarrow>
               if passChecks checks
               then
                 let ctx = commandContext message' p c commandVariation
                 in (evs @ [CommandRun c message' ctx],
                     case callCommandRun env (Command.run c) message' ctx of
                       Some e \<Rightarrow> Inl e
                     | None \<Rightarrow> Inr (Match commandVariation checks c))
               else (evs, Inr (Match commandVariation checks c))))"

text \<open>
  \<^verbatim>\<open>validPrefixes\<close> is the array \<^verbatim>\<open>settings.globalPrefixes\<close> itself, not a copy:
  the \<^verbatim>\<open>push\<close> of the guild's prefixes changes the settings.
\<close>

definition validPrefixes :: "'f State \<Rightarrow> Message \<Rightarrow> string list" where
  \<comment> \<open>the array after \<^verbatim>\<open>validPrefixes.push(...settings.guildPrefixes.get(message.guild.id))\<close>\<close>
  "validPrefixes st message =
     globalPrefixes (settings st)
     @ (case guild message of
          Some g \<Rightarrow> (case guildPrefixes (settings st) g of Some ps \<Rightarrow> ps | None \<Rightarrow> [])
        | None \<Rightarrow> [])"

definition checkCommand ::
  "'f Env \<Rightarrow> 'f State \<Rightarrow> Message \<Rightarrow> 'f State \<times> 'f event list \<times> (error + 'f CommandMatch)" where
  "checkCommand env st message =
     (let st' = st\<lparr>settings := (settings st)\<lparr>globalPrefixes := validPrefixes st message\<rparr>\<rparr>
      in case findPrefix (content message) (commands st') (globalPrefixes (settings st')) of
           Some (p, c, commandVariation) \<Rightarrow>
             (st', runMatched env (settings st') message p c commandVariation)
         | None \<Rightarrow> (st', [], Inr NoMatch))"

section \<open>checkTasks\<close>

definition testResultOf :: "'f Env \<Rightarrow> 'f Task \<Rightarrow> Message \<Rightarrow> bool" where
  \<comment> \<open>\<^verbatim>\<open>try { testResult = await taskObj.test(message) } catch (_err) { testResult = false }\<close>\<close>
  "testResultOf env taskObj message =
     (case callTest env (test taskObj) message of Inl _ \<Rightarrow> False | Inr b \<Rightarrow> b)"

fun partitionTasks ::
  "'f Env \<Rightarrow> Settings \<Rightarrow> Message \<Rightarrow> bool \<Rightarrow> 'f Task list \<Rightarrow> bool \<Rightarrow> 'f TaskContext
     \<Rightarrow> error + 'f TaskContext" where
  \<comment> \<open>the first loop; the sixth argument is \<^verbatim>\<open>limitedSelected\<close>\<close>
  "partitionTasks env s message excludeLimited [] limitedSelected ctx = Inr ctx"
| "partitionTasks env s message excludeLimited (taskObj # rest) limitedSelected ctx =
     (if testResultOf env taskObj message
      then
        (case checkTaskPermissions s taskObj message of
           Inl e \<Rightarrow> Inl e
         | Inr checks \<Rightarrow>
             if passChecks checks
                \<and> (\<not> limited taskObj \<or> (\<not> limitedSelected \<and> \<not> excludeLimited))
             then partitionTasks env s message excludeLimited rest (limited taskObj)
                    (ctx\<lparr>matching := matching ctx @ [taskObj]\<rparr>)
             else partitionTasks env s message excludeLimited rest limitedSelected
                    (ctx\<lparr>notMatching := notMatching ctx @ [taskObj]\<rparr>))
      else partitionTasks env s message excludeLimited rest limitedSelected
             (ctx\<lparr>notMatching := notMatching ctx @ [taskObj]\<rparr>))"

fun runTasks ::
  "'f Env \<Rightarrow> Message \<Rightarrow> 'f TaskContext \<Rightarrow> 'f Task list \<Rightarrow> 'f event list \<times> error option" where
  \<comment> \<open>the second loop: a \<^verbatim>\<open>run\<close> that throws ends it\<close>
  "runTasks env message ctx [] = ([], None)"
| "runTasks env message ctx (taskObj # rest) =
     (case callTaskRun env (Task.run taskObj) message ctx of
        Some e \<Rightarrow> ([TaskRun taskObj message ctx], Some e)
      | None \<Rightarrow>
          (case runTasks env message ctx rest of
             (evs, r) \<Rightarrow> (TaskRun taskObj message ctx # evs, r)))"

definition checkTasks ::
  "'f Env \<Rightarrow> 'f State \<Rightarrow> Message \<Rightarrow> bool \<Rightarrow> 'f event list \<times> (error + 'f TaskMatch)" where
  "checkTasks env st message excludeLimited =
     (case partitionTasks env (settings st) message excludeLimited (tasks st) False
             \<lparr> matching = [], notMatching = [] \<rparr> of
        Inl e \<Rightarrow> ([], Inl e)
      | Inr tasksContext \<Rightarrow>
          (case runTasks env message tasksContext (matching tasksContext) of
             (evs, Some e) \<Rightarrow> (evs, Inl e)
           | (evs, None) \<Rightarrow>
               (evs, Inr \<lparr> match = (length (matching tasksContext) \<noteq> 0),
                           tmMatching = matching tasksContext,
                           tmNotMatching = notMatching tasksContext \<rparr>)))"


section \<open>Registration\<close>

text \<open>
  \<^verbatim>\<open>registerCommandsFolder\<close> and \<^verbatim>\<open>registerTasksFolder\<close> read a folder and
  \<^verbatim>\<open>require\<close> each file. Their input here is the list of the modules so loaded, in the
  order of \<^verbatim>\<open>readdirSync\<close>. Both push onto the living list inside the loop and sort
  after it, so a \<^verbatim>\<open>throw\<close> leaves the loop with the list as it is at that moment.
\<close>

record RegistrationInfo =
  registered :: nat
  disabled :: nat

definition normalise :: "jsval \<Rightarrow> string" where
  \<comment> \<open>\<^verbatim>\<open>e.trim().toLowerCase()\<close>\<close>
  "normalise v = toLowerCase (trim (strOf v))"

definition normaliseAliases :: "jsval \<Rightarrow> error + string list" where
  "normaliseAliases v =
     (case v of
        JArr es \<Rightarrow>
          (if \<exists>e \<in> set es. \<not> isString e
           then Inl (Error ''Command aliases must be strings'')
           else Inr (map normalise es))
      | _ \<Rightarrow> Inr [])"

definition duplicateError :: "string \<Rightarrow> string \<Rightarrow> error" where
  "duplicateError commandVariation c =
     Error (''Duplicate command: '' @ commandVariation
            @ (if commandVariation \<noteq> c then '' (alias of '' @ c @ '')'' else []))"

definition accepted :: "'f CommandImport \<Rightarrow> string \<Rightarrow> string list \<Rightarrow> 'f Command" where
  \<comment> \<open>the module's object once \<^verbatim>\<open>command\<close> and \<^verbatim>\<open>aliases\<close> have been overwritten\<close>
  "accepted commandObj c as =
     \<lparr> PermFlags.disabled = PermFlags.disabled commandObj,
       ownerOnly = PermFlags.ownerOnly commandObj,
       adminOnly = PermFlags.adminOnly commandObj,
       modOnly = PermFlags.modOnly commandObj,
       inGuilds = PermFlags.inGuilds commandObj,
       inDms = PermFlags.inDms commandObj,
       allowBots = PermFlags.allowBots commandObj,
       botsOnly = PermFlags.botsOnly commandObj,
       allowSelf = PermFlags.allowSelf commandObj,
       Command.command = c, Command.aliases = as,
       Command.description = CommandImport.description commandObj,
       Command.usage = CommandImport.usage commandObj,
       Command.run = CommandImport.run commandObj \<rparr>"

fun registerCommandsLoop ::
  "'f CommandImport list \<Rightarrow> 'f Command list \<Rightarrow> string list \<Rightarrow> nat \<Rightarrow> nat
     \<Rightarrow> 'f Command list \<times> (error + RegistrationInfo)" where
  "registerCommandsLoop [] cmds commandStrings d r =
     (cmds, Inr \<lparr> registered = r, disabled = d \<rparr>)"
| "registerCommandsLoop (commandObj # rest) cmds commandStrings d r =
     (if \<not> isString (CommandImport.command commandObj)
      then (cmds, Inl (Error ''Command must be a string''))
      else
        let c = normalise (CommandImport.command commandObj)
        in if c = [] \<or> PermFlags.disabled commandObj = Some True
           then registerCommandsLoop rest cmds commandStrings (d + 1) r
           else
             (case normaliseAliases (CommandImport.aliases commandObj) of
                Inl e \<Rightarrow> (cmds, Inl e)
              | Inr as \<Rightarrow>
                  let commandVariations = c # as
                  in (case find (\<lambda>v. v \<in> set commandStrings) commandVariations of
                        Some v \<Rightarrow> (cmds, Inl (duplicateError v c))
                      | None \<Rightarrow>
                          registerCommandsLoop rest (cmds @ [accepted commandObj c as])
                            (commandStrings @ commandVariations) d (r + 1))))"

definition sortCommands :: "'f Command list \<Rightarrow> 'f Command list" where
  \<comment> \<open>\<^verbatim>\<open>commands.sort\<close> with the comparator on \<^verbatim>\<open>command.length\<close>: longest first, and
      \<^verbatim>\<open>Array.prototype.sort\<close> is stable\<close>
  "sortCommands cmds = sort_key (\<lambda>c. - int (length (Command.command c))) cmds"

definition registerCommandsFolder ::
  "'f CommandImport list \<Rightarrow> 'f State \<Rightarrow> 'f State \<times> (error + RegistrationInfo)" where
  "registerCommandsFolder commandFiles st =
     (case registerCommandsLoop commandFiles (commands st)
             (map Command.command (commands st)) 0 0 of
        (cmds, Inl e) \<Rightarrow> (st\<lparr>commands := cmds\<rparr>, Inl e)
      | (cmds, Inr info) \<Rightarrow> (st\<lparr>commands := sortCommands cmds\<rparr>, Inr info))"

fun registerTasksLoop ::
  "'f Task list \<Rightarrow> 'f Task list \<Rightarrow> string list \<Rightarrow> nat \<Rightarrow> nat
     \<Rightarrow> 'f Task list \<times> (error + RegistrationInfo)" where
  "registerTasksLoop [] ts tasknames d r = (ts, Inr \<lparr> registered = r, disabled = d \<rparr>)"
| "registerTasksLoop (taskObj # rest) ts tasknames d r =
     (if PermFlags.disabled taskObj = Some True
      then registerTasksLoop rest ts tasknames (d + 1) r
      else if name taskObj \<in> set tasknames
      then (ts, Inl (Error (''Duplicate task: '' @ name taskObj)))
      else registerTasksLoop rest (ts @ [taskObj]) (tasknames @ [name taskObj]) d (r + 1))"

definition sortTasks :: "'f Task list \<Rightarrow> 'f Task list" where
  \<comment> \<open>\<^verbatim>\<open>tasks.sort\<close> with the comparator on \<^verbatim>\<open>name\<close>: ascending by code unit\<close>
  "sortTasks ts = sort_key name ts"

definition registerTasksFolder ::
  "'f Task list \<Rightarrow> 'f State \<Rightarrow> 'f State \<times> (error + RegistrationInfo)" where
  "registerTasksFolder taskFiles st =
     (case registerTasksLoop taskFiles (tasks st) (map name (tasks st)) 0 0 of
        (ts, Inl e) \<Rightarrow> (st\<lparr>tasks := ts\<rparr>, Inl e)
      | (ts, Inr info) \<Rightarrow> (st\<lparr>tasks := sortTasks ts\<rparr>, Inr info))"


section \<open>Notions of the specification, and fixtures\<close>

text \<open>
  "Duplicates collapsed, order preserved from first occurrence": the first element
  stays, its later copies go, and so on for the rest.
\<close>

function firstOccurrences :: "'a list \<Rightarrow> 'a list" where
  "firstOccurrences [] = []"
| "firstOccurrences (x # xs) = x # firstOccurrences (filter (\<lambda>y. y \<noteq> x) xs)"
  by pat_completeness auto
termination
  by (relation "measure length") (auto simp: less_Suc_eq_le)

text \<open>Descriptors with every optional property absent, and two hosts.\<close>

definition mkCommand :: "string \<Rightarrow> string list \<Rightarrow> nat \<Rightarrow> nat Command" where
  "mkCommand c as r =
     \<lparr> PermFlags.disabled = None, ownerOnly = None, adminOnly = None, modOnly = None,
       inGuilds = None, inDms = None, allowBots = None, botsOnly = None, allowSelf = None,
       Command.command = c, Command.aliases = as, Command.description = None,
       Command.usage = None, Command.run = r \<rparr>"

definition mkImport :: "jsval \<Rightarrow> jsval \<Rightarrow> nat \<Rightarrow> nat CommandImport" where
  "mkImport c as r =
     \<lparr> PermFlags.disabled = None, ownerOnly = None, adminOnly = None, modOnly = None,
       inGuilds = None, inDms = None, allowBots = None, botsOnly = None, allowSelf = None,
       CommandImport.command = c, CommandImport.aliases = as,
       CommandImport.description = None, CommandImport.usage = None,
       CommandImport.run = r \<rparr>"

definition mkTask :: "string \<Rightarrow> bool \<Rightarrow> nat \<Rightarrow> nat \<Rightarrow> nat Task" where
  "mkTask n l t r =
     \<lparr> PermFlags.disabled = None, ownerOnly = None, adminOnly = None, modOnly = None,
       inGuilds = None, inDms = None, allowBots = None, botsOnly = None, allowSelf = None,
       name = n, limited = l, test = t, Task.run = r \<rparr>"

definition dmMessage :: "string \<Rightarrow> Message" where
  \<comment> \<open>a direct message of a user who is neither a bot nor the client\<close>
  "dmMessage text =
     \<lparr> content = text, guild = None, member = None, authorId = ''user'',
       authorBot = False, clientUserId = ''client'' \<rparr>"

definition guildMessage :: "string \<Rightarrow> Message" where
  \<comment> \<open>the same author in the guild \<open>g1\<close>, the member not resolved\<close>
  "guildMessage text = (dmMessage text)\<lparr>guild := Some ''g1''\<rparr>"

definition plainMember :: GuildMember where
  "plainMember = \<lparr> administrator = False, roleIds = [] \<rparr>"

definition demoEnv :: "nat Env" where
  \<comment> \<open>the test with reference 0 throws, test 1 returns false, every other test returns
      true; no \<^verbatim>\<open>run\<close> throws; every fetch succeeds\<close>
  "demoEnv =
     \<lparr> callTest = (\<lambda>f m. if f = 0 then Inl (Thrown 0) else Inr (f \<noteq> 1)),
       callCommandRun = (\<lambda>f m ctx. None),
       callTaskRun = (\<lambda>f m ctx. None),
       fetchMember = (\<lambda>g a. Inr plainMember) \<rparr>"

definition demoState :: "nat State" where
  \<comment> \<open>commands \<open>ban\<close> (alias \<open>b\<close>), \<open>banlist\<close>, \<open>ping\<close> and \<open>shutdown\<close> (for the
      owner only, and no owner is set); tasks \<open>a\<close> (limited), \<open>b\<close> and
      \<open>c\<close> (limited), whose tests return true; global prefix \<open>!\<close>; guild \<open>g1\<close> with
      prefix \<open>?\<close>\<close>
  "demoState =
     (let st1 = fst (registerCommandsFolder
                  [mkImport (JStr ''Ban'') (JArr [JStr ''b'']) 1,
                   mkImport (JStr ''banlist'') JUndefined 2,
                   mkImport (JStr ''ping'') JUndefined 3,
                   (mkImport (JStr ''shutdown'') JUndefined 4)\<lparr>PermFlags.ownerOnly := Some True\<rparr>]
                  initialState);
          st2 = fst (registerTasksFolder
                  [mkTask ''c'' True 2 12, mkTask ''a'' True 2 10, mkTask ''b'' False 2 11] st1);
          st3 = fst (setGlobalPrefixes (JArr [JStr ''!'']) st2)
      in fst (setGuildPrefixes ''g1'' (JArr [JStr ''?'']) st3))"

definition raisingTasks :: "nat State" where
  \<comment> \<open>task \<open>a\<close>, whose test throws, and task \<open>b\<close>, whose test returns true\<close>
  "raisingTasks =
     fst (registerTasksFolder [mkTask ''a'' False 0 10, mkTask ''b'' False 2 11] initialState)"

text \<open>The host in which every test that throws returns false instead.\<close>

definition catchAsFalse :: "'f Env \<Rightarrow> 'f Env" where
  "catchAsFalse env =
     env\<lparr>callTest := (\<lambda>f m. case callTest env f m of Inl _ \<Rightarrow> Inr False | Inr b \<Rightarrow> Inr b)\<rparr>"

text \<open>
  "Its text, compared case-insensitively, starts with p+v followed by whitespace or
  nothing": both sides of the comparison are brought to lower case.
\<close>

definition matchesIgnoringCase :: "string \<Rightarrow> string \<Rightarrow> string \<Rightarrow> bool" where
  "matchesIgnoringCase text p v =
     (startsWith (toLowerCase text) (toLowerCase (p @ v))
      \<and> boundaryTest (slice (toLowerCase text) (length (p @ v))))"

definition allPass :: PermissionChecks where
  "allPass = \<lparr> passChecks = True, passAdminCheck = True, passModCheck = True,
       passBotCheck = True, passChannelTypeCheck = True, passOwnerCheck = True,
       passSelfCheck = True \<rparr>"

definition upperPrefixState :: "nat State" where
  \<comment> \<open>\<open>demoState\<close> after \<^verbatim>\<open>setGlobalPrefixes(['B!'])\<close>\<close>
  "upperPrefixState = fst (setGlobalPrefixes (JArr [JStr ''B!'']) demoState)"

text \<open>
  What the registration loop does with one module, named: a module is skipped when its
  name is empty after normalising or it is disabled; a module fails validation against
  the names seen so far when its name is not a string, or it is not skipped and has an
  alias that is not a string or a name or alias among the names seen. The names seen
  before a module of a batch are the primary names registered before the call and the
  names and aliases of the modules of the batch accepted before it.
\<close>

definition skipped :: "'f CommandImport \<Rightarrow> bool" where
  "skipped f =
     (normalise (CommandImport.command f) = [] \<or> PermFlags.disabled f = Some True)"

definition badAliases :: "'f CommandImport \<Rightarrow> bool" where
  "badAliases f =
     (case CommandImport.aliases f of JArr es \<Rightarrow> (\<exists>e \<in> set es. \<not> isString e) | _ \<Rightarrow> False)"

definition aliasesOf :: "'f CommandImport \<Rightarrow> string list" where
  "aliasesOf f =
     (case CommandImport.aliases f of JArr es \<Rightarrow> map normalise es | _ \<Rightarrow> [])"

definition variationsOfImport :: "'f CommandImport \<Rightarrow> string list" where
  "variationsOfImport f = normalise (CommandImport.command f) # aliasesOf f"

definition acceptedOf :: "'f CommandImport list \<Rightarrow> 'f Command list" where
  "acceptedOf fs =
     map (\<lambda>f. accepted f (normalise (CommandImport.command f)) (aliasesOf f))
       (filter (\<lambda>f. \<not> skipped f) fs)"

definition seenBefore :: "string list \<Rightarrow> 'f CommandImport list \<Rightarrow> string list" where
  "seenBefore registeredNames fs =
     registeredNames @ concat (map variationsOfImport (filter (\<lambda>f. \<not> skipped f) fs))"

definition failsValidation :: "'f CommandImport \<Rightarrow> string list \<Rightarrow> bool" where
  "failsValidation f seen =
     (\<not> isString (CommandImport.command f)
      \<or> (\<not> skipped f
          \<and> (badAliases f \<or> (\<exists>v \<in> set (variationsOfImport f). v \<in> set seen))))"

definition enabled :: "'f Task \<Rightarrow> bool" where
  "enabled t = (PermFlags.disabled t \<noteq> Some True)"

text \<open>Batches that fail, and registries for the ordering of commands.\<close>

definition duplicateBatch :: "nat CommandImport list" where
  "duplicateBatch =
     [mkImport (JStr ''ban'') JUndefined 1,
      mkImport (JStr ''banlist'') (JArr [JStr '' Ban'']) 2,
      mkImport (JStr ''ping'') JUndefined 3]"

definition duplicateTaskBatch :: "nat Task list" where
  "duplicateTaskBatch = [mkTask ''b'' False 2 11, mkTask ''a'' True 2 10, mkTask ''b'' True 2 12]"

definition twoPrefixState :: "nat State" where
  "twoPrefixState =
     fst (registerCommandsFolder
            [mkImport (JStr ''bot'') JUndefined 1, mkImport (JStr ''bots'') JUndefined 2]
            (fst (setGlobalPrefixes (JArr [JStr '''', JStr ''bot '']) initialState)))"

definition spacedBatch :: "nat CommandImport list" where
  "spacedBatch =
     [mkImport (JStr ''ban'') JUndefined 1, mkImport (JStr ''ban list'') JUndefined 2]"

definition bangState :: "nat State" where
  "bangState = fst (setGlobalPrefixes (JArr [JStr ''!'']) initialState)"


section \<open>Properties of the prefix settings\<close>

lemma setOrder_firstOccurrences:
  "setOrder seen xs = seen @ firstOccurrences (filter (\<lambda>y. y \<notin> set seen) xs)"
proof (induction xs arbitrary: seen)
  case Nil
  show ?case by simp
next
  case (Cons x xs)
  show ?case
  proof (cases "x \<in> set seen")
    case True
    then show ?thesis using Cons.IH [of seen] by simp
  next
    case False
    have "filter (\<lambda>y. y \<notin> set (seen @ [x])) xs
            = filter (\<lambda>y. y \<noteq> x) (filter (\<lambda>y. y \<notin> set seen) xs)"
      by (induction xs) auto
    then show ?thesis using False Cons.IH [of "seen @ [x]"] by simp
  qed
qed

lemma uniqueList_firstOccurrences: "uniqueList xs = firstOccurrences xs"
  by (simp add: uniqueList_def setOrder_firstOccurrences)

lemma setOrder_map_inj:
  "inj f \<Longrightarrow> setOrder (map f seen) (map f xs) = map f (setOrder seen xs)"
proof (induction xs arbitrary: seen)
  case Nil
  show ?case by simp
next
  case (Cons x xs)
  have mem: "f x \<in> set (map f seen) \<longleftrightarrow> x \<in> set seen"
    using Cons.prems by (auto dest: injD)
  show ?case
  proof (cases "x \<in> set seen")
    case True
    then show ?thesis using mem Cons.IH [OF Cons.prems, of seen] by simp
  next
    case False
    then show ?thesis using mem Cons.IH [OF Cons.prems, of "seen @ [x]"] by simp
  qed
qed

lemma uniqueList_JStr: "map strOf (uniqueList (map JStr ps)) = uniqueList ps"
proof -
  have "inj JStr" by (simp add: inj_def)
  then have "uniqueList (map JStr ps) = map JStr (uniqueList ps)"
    unfolding uniqueList_def using setOrder_map_inj [of JStr "[]" ps] by simp
  then show ?thesis by (simp add: strOf_def comp_def)
qed

lemma set_setOrder: "set (setOrder seen xs) = set seen \<union> set xs"
  by (induction xs arbitrary: seen) auto

lemma all_strings_uniqueList: "\<not> (\<exists>p \<in> set (uniqueList (map JStr ps)). \<not> isString p)"
  by (auto simp: uniqueList_def set_setOrder isString_def)

text \<open>
  C9 (as amended). For every non-empty list of strings, \<^verbatim>\<open>setGlobalPrefixes\<close> stores and
  returns the list with duplicates collapsed in order of first occurrence, and
  \<^verbatim>\<open>getGlobalPrefixes\<close> then returns it; for the empty list the stored list is
  \<^verbatim>\<open>['']\<close>. For every guild id, \<^verbatim>\<open>setGuildPrefixes(g, [])\<close> returns \<^verbatim>\<open>[]\<close>,
  leaves \<^verbatim>\<open>getGuildPrefixes(g)\<close> empty and removes the entry of \<open>g\<close> from the map.
\<close>

theorem prefixes_round_trip:
  "(ps \<noteq> [] \<longrightarrow>
      setGlobalPrefixes (JArr (map JStr ps)) st
        = (st\<lparr>settings := (settings st)\<lparr>globalPrefixes := firstOccurrences ps\<rparr>\<rparr>,
           Inr (firstOccurrences ps))
      \<and> getGlobalPrefixes (fst (setGlobalPrefixes (JArr (map JStr ps)) st)) = firstOccurrences ps)
   \<and> getGlobalPrefixes (fst (setGlobalPrefixes (JArr []) st)) = [[]]
   \<and> snd (setGuildPrefixes g (JArr []) st) = Inr []
   \<and> getGuildPrefixes g (fst (setGuildPrefixes g (JArr []) st)) = []
   \<and> guildPrefixes (settings (fst (setGuildPrefixes g (JArr []) st))) g = None"
proof -
  have glob: "setGlobalPrefixes (JArr (map JStr ps)) st
        = (st\<lparr>settings := (settings st)\<lparr>globalPrefixes := firstOccurrences ps\<rparr>\<rparr>,
           Inr (firstOccurrences ps))" if "ps \<noteq> []"
    using that all_strings_uniqueList [of ps] uniqueList_firstOccurrences [of ps]
    by (simp add: setGlobalPrefixes_def isNullish_def prefixListOf_def Let_def
        uniqueList_JStr del: bex_simps)
  have empty: "getGlobalPrefixes (fst (setGlobalPrefixes (JArr []) st)) = [[]]"
    by (simp add: setGlobalPrefixes_def isNullish_def prefixListOf_def Let_def
        uniqueList_def isString_def strOf_def getGlobalPrefixes_def)
  have guild: "setGuildPrefixes g (JArr []) st
      = (st\<lparr>settings := (settings st)
            \<lparr>guildPrefixes := (guildPrefixes (settings st))(g := None)\<rparr>\<rparr>, Inr [])"
    by (simp add: setGuildPrefixes_def prefixListOf_def Let_def)
  show ?thesis
    using glob empty by (simp add: guild getGuildPrefixes_def getGlobalPrefixes_def)
qed

theorem prefixes_round_trip_witness:
  "[''!'', ''?'', ''!''] \<noteq> []
   \<and> getGlobalPrefixes
       (fst (setGlobalPrefixes (JArr (map JStr [''!'', ''?'', ''!''])) (initialState :: nat State)))
     = [''!'', ''?'']
   \<and> guildPrefixes (settings (fst (setGuildPrefixes ''g1'' (JArr []) (initialState :: nat State))))
       ''g1'' = None"
  using prefixes_round_trip [where ps = "[''!'', ''?'', ''!'']"
      and st = "initialState :: nat State" and g = "''g1''"]
  by (simp add: getGlobalPrefixes_def)

text \<open>
  The claim as stated, for every list: at the empty list the stored prefixes are not the
  deduplicated list (which is empty) but the list of the empty prefix.
\<close>

theorem prefixes_round_trip_counterexample:
  "getGlobalPrefixes (fst (setGlobalPrefixes (JArr (map JStr [])) (initialState :: nat State)))
     \<noteq> firstOccurrences []"
  by (simp add: setGlobalPrefixes_def isNullish_def prefixListOf_def Let_def
        uniqueList_def isString_def strOf_def getGlobalPrefixes_def)


section \<open>Properties of checkCommand's effect on the settings\<close>

text \<open>
  C8. A call of \<^verbatim>\<open>checkCommand\<close> on a message from a guild that has prefixes of its own
  appends them to the global prefixes, whatever the call returns, and the growth stays:
  \<^verbatim>\<open>getGlobalPrefixes\<close> afterwards returns the former global prefixes followed by the
  guild's, and a second call appends them once more.
\<close>

theorem guild_prefixes_accumulate:
  "guild message = Some g \<Longrightarrow> guildPrefixes (settings st) g = Some ps \<Longrightarrow>
     getGlobalPrefixes (fst (checkCommand env st message)) = getGlobalPrefixes st @ ps
     \<and> getGlobalPrefixes (fst (checkCommand env (fst (checkCommand env st message)) message))
         = getGlobalPrefixes st @ ps @ ps"
  by (simp add: checkCommand_def validPrefixes_def getGlobalPrefixes_def Let_def
      split: option.splits prod.splits)

theorem guild_prefixes_accumulate_witness:
  "guild (guildMessage ''hi'') = Some ''g1''
   \<and> guildPrefixes (settings demoState) ''g1'' = Some [''?'']
   \<and> getGlobalPrefixes demoState = [''!'']
   \<and> getGlobalPrefixes (fst (checkCommand demoEnv demoState (guildMessage ''hi''))) = [''!'', ''?'']
   \<and> getGlobalPrefixes
       (fst (checkCommand demoEnv (fst (checkCommand demoEnv demoState (guildMessage ''hi'')))
              (guildMessage ''hi'')))
     = [''!'', ''?'', ''?'']"
proof -
  have h1: "guild (guildMessage ''hi'') = Some ''g1''"
    by (simp add: guildMessage_def)
  have h2: "guildPrefixes (settings demoState) ''g1'' = Some [''?'']"
    by code_simp
  have h3: "getGlobalPrefixes demoState = [''!'']"
    by code_simp
  from guild_prefixes_accumulate [OF h1 h2, of demoEnv] h1 h2 h3
  show ?thesis by simp
qed

section \<open>Properties of checkTasks\<close>

text \<open>
  C1 (the code at the failing input). \<^verbatim>\<open>limitedSelected = taskObj.limited\<close> is executed
  for every task that is selected, so a task that is not limited clears the flag. With
  the tasks \<open>a\<close> (limited), \<open>b\<close> (not limited) and \<open>c\<close> (limited), all of which pass, the
  one call selects both limited tasks.
\<close>

theorem limited_flag_reset_evaluation:
  "tasks demoState = [mkTask ''a'' True 2 10, mkTask ''b'' False 2 11, mkTask ''c'' True 2 12]
   \<and> snd (checkTasks demoEnv demoState (dmMessage ''hi'') False)
       = Inr \<lparr> match = True,
               tmMatching = [mkTask ''a'' True 2 10, mkTask ''b'' False 2 11, mkTask ''c'' True 2 12],
               tmNotMatching = [] \<rparr>
   \<and> length (filter limited
        [mkTask ''a'' True 2 10, mkTask ''b'' False 2 11, mkTask ''c'' True 2 12]) = 2"
  by code_simp

text \<open>What does hold of the limited tasks: with \<^verbatim>\<open>excludeLimited\<close> none is selected.\<close>

lemma partitionTasks_excludeLimited:
  "partitionTasks env s message True ts ls ctx = Inr ctx' \<Longrightarrow> t \<in> set (matching ctx') \<Longrightarrow>
     t \<in> set (matching ctx) \<or> \<not> limited t"
proof (induction ts arbitrary: ls ctx)
  case Nil
  then show ?case by simp
next
  case (Cons a ts)
  show ?case
  proof (cases "testResultOf env a message")
    case False
    with Cons.prems(1) have
      "partitionTasks env s message True ts ls (ctx\<lparr>notMatching := notMatching ctx @ [a]\<rparr>)
         = Inr ctx'"
      by simp
    from Cons.IH [OF this Cons.prems(2)] show ?thesis by simp
  next
    case True
    with Cons.prems(1) obtain checks where
      perm: "checkTaskPermissions s a message = Inr checks"
      by (auto split: sum.splits)
    show ?thesis
    proof (cases "passChecks checks \<and> \<not> limited a")
      case yes: True
      with Cons.prems(1) True perm have
        "partitionTasks env s message True ts (limited a) (ctx\<lparr>matching := matching ctx @ [a]\<rparr>)
           = Inr ctx'"
        by simp
      from Cons.IH [OF this Cons.prems(2)] yes show ?thesis by auto
    next
      case no: False
      with Cons.prems(1) True perm have
        "partitionTasks env s message True ts ls (ctx\<lparr>notMatching := notMatching ctx @ [a]\<rparr>)
           = Inr ctx'"
        by auto
      from Cons.IH [OF this Cons.prems(2)] show ?thesis by simp
    qed
  qed
qed

lemma testResultOf_catchAsFalse:
  "testResultOf (catchAsFalse env) taskObj message = testResultOf env taskObj message"
  by (simp add: testResultOf_def catchAsFalse_def split: sum.splits)

lemma partitionTasks_catchAsFalse:
  "partitionTasks (catchAsFalse env) s message x ts ls ctx = partitionTasks env s message x ts ls ctx"
  by (induction ts arbitrary: ls ctx)
     (simp_all add: testResultOf_catchAsFalse cong: sum.case_cong if_cong)

lemma runTasks_catchAsFalse:
  "runTasks (catchAsFalse env) message ctx ts = runTasks env message ctx ts"
  by (induction ts) (simp_all add: catchAsFalse_def cong: option.case_cong)

lemma checkTasks_catchAsFalse:
  "checkTasks (catchAsFalse env) st message x = checkTasks env st message x"
  by (simp add: checkTasks_def partitionTasks_catchAsFalse runTasks_catchAsFalse
      cong: sum.case_cong)

lemma partitionTasks_notMatching:
  "partitionTasks env s message x ts ls ctx = Inr ctx' \<Longrightarrow>
     set (notMatching ctx) \<union> {t \<in> set ts. \<not> testResultOf env t message} \<subseteq> set (notMatching ctx')
     \<and> set (matching ctx') \<subseteq> set (matching ctx) \<union> {t \<in> set ts. testResultOf env t message}"
proof (induction ts arbitrary: ls ctx)
  case Nil
  then show ?case by simp
next
  case (Cons t ts)
  show ?case
  proof (cases "testResultOf env t message")
    case False
    with Cons.prems have
      "partitionTasks env s message x ts ls (ctx\<lparr>notMatching := notMatching ctx @ [t]\<rparr>) = Inr ctx'"
      by simp
    from Cons.IH [OF this] False show ?thesis by auto
  next
    case True
    with Cons.prems obtain checks where
      perm: "checkTaskPermissions s t message = Inr checks"
      by (auto split: sum.splits)
    show ?thesis
    proof (cases "passChecks checks \<and> (\<not> limited t \<or> (\<not> ls \<and> \<not> x))")
      case yes: True
      with Cons.prems True perm have
        "partitionTasks env s message x ts (limited t) (ctx\<lparr>matching := matching ctx @ [t]\<rparr>) = Inr ctx'"
        by simp
      from Cons.IH [OF this] True show ?thesis by auto
    next
      case no: False
      with Cons.prems True perm have
        "partitionTasks env s message x ts ls (ctx\<lparr>notMatching := notMatching ctx @ [t]\<rparr>) = Inr ctx'"
        by auto
      from Cons.IH [OF this] True show ?thesis by auto
    qed
  qed
qed

lemma runTasks_events:
  "runTasks env message ctx ts = (evs, r) \<Longrightarrow> ev \<in> set evs \<Longrightarrow>
     \<exists>t \<in> set ts. ev = TaskRun t message ctx"
  by (induction ts arbitrary: evs r) (auto split: option.splits prod.splits)

lemma partitionTasks_all_false:
  "\<forall>t \<in> set ts. \<not> testResultOf env t message \<Longrightarrow>
     partitionTasks env s message x ts ls ctx = Inr (ctx\<lparr>notMatching := notMatching ctx @ ts\<rparr>)"
  by (induction ts arbitrary: ctx) simp_all

text \<open>
  C7. A test that throws counts as a test that returns false: the whole outcome of
  \<^verbatim>\<open>checkTasks\<close> (events, result or error) is the one under the host whose tests
  return false where they threw. The task of such a test is never run, and when the call
  returns it is in \<^verbatim>\<open>notMatching\<close> and not in \<^verbatim>\<open>matching\<close>. If every test throws,
  the call returns with no task matching.
\<close>

theorem test_raise_as_false:
  "checkTasks env st message x = checkTasks (catchAsFalse env) st message x
   \<and> (taskObj \<in> set (tasks st) \<longrightarrow> callTest env (test taskObj) message = Inl e \<longrightarrow>
        (\<forall>m ctx. TaskRun taskObj m ctx \<notin> set (fst (checkTasks env st message x)))
        \<and> (\<forall>res. snd (checkTasks env st message x) = Inr res \<longrightarrow>
              taskObj \<in> set (tmNotMatching res) \<and> taskObj \<notin> set (tmMatching res)))
   \<and> ((\<forall>t \<in> set (tasks st). \<exists>e. callTest env (test t) message = Inl e) \<longrightarrow>
        checkTasks env st message x
          = ([], Inr \<lparr> match = False, tmMatching = [], tmNotMatching = tasks st \<rparr>))"
proof -
  have same: "checkTasks env st message x = checkTasks (catchAsFalse env) st message x"
    by (simp add: checkTasks_catchAsFalse)
  have single: "(\<forall>m ctx. TaskRun taskObj m ctx \<notin> set (fst (checkTasks env st message x)))
        \<and> (\<forall>res. snd (checkTasks env st message x) = Inr res \<longrightarrow>
              taskObj \<in> set (tmNotMatching res) \<and> taskObj \<notin> set (tmMatching res))"
    if mem: "taskObj \<in> set (tasks st)" and raises: "callTest env (test taskObj) message = Inl e"
  proof -
    from raises have false: "\<not> testResultOf env taskObj message"
      by (simp add: testResultOf_def)
    let ?start = "\<lparr> matching = [], notMatching = [] \<rparr> :: 'a TaskContext"
    show ?thesis
    proof (cases "partitionTasks env (settings st) message x (tasks st) False ?start")
      case (Inl err)
      then show ?thesis by (simp add: checkTasks_def)
    next
      case (Inr ctx')
      from partitionTasks_notMatching [OF Inr] mem false
      have inNot: "taskObj \<in> set (notMatching ctx')" and notIn: "taskObj \<notin> set (matching ctx')"
        by auto
      obtain evs r where run: "runTasks env message ctx' (matching ctx') = (evs, r)"
        by (cases "runTasks env message ctx' (matching ctx')")
      have "TaskRun taskObj m ctx \<notin> set evs" for m ctx
        using runTasks_events [OF run] notIn by auto
      then show ?thesis
        using Inr run inNot notIn by (cases r) (auto simp: checkTasks_def)
    qed
  qed
  have all: "checkTasks env st message x
          = ([], Inr \<lparr> match = False, tmMatching = [], tmNotMatching = tasks st \<rparr>)"
    if "\<forall>t \<in> set (tasks st). \<exists>e. callTest env (test t) message = Inl e"
  proof -
    from that have "\<forall>t \<in> set (tasks st). \<not> testResultOf env t message"
      by (auto simp: testResultOf_def)
    from partitionTasks_all_false [OF this]
    show ?thesis by (simp add: checkTasks_def)
  qed
  from same single all show ?thesis by blast
qed

theorem test_raise_as_false_witness:
  "mkTask ''a'' False 0 10 \<in> set (tasks raisingTasks)
   \<and> callTest demoEnv (test (mkTask ''a'' False 0 10)) (dmMessage ''hi'') = Inl (Thrown 0)
   \<and> snd (checkTasks demoEnv raisingTasks (dmMessage ''hi'') False)
       = Inr \<lparr> match = True, tmMatching = [mkTask ''b'' False 2 11],
               tmNotMatching = [mkTask ''a'' False 0 10] \<rparr>
   \<and> mkTask ''a'' False 0 10 \<in> set [mkTask ''a'' False 0 10]
   \<and> mkTask ''a'' False 0 10 \<notin> set [mkTask ''b'' False 2 11]"
proof -
  have h1: "mkTask ''a'' False 0 10 \<in> set (tasks raisingTasks)"
    by code_simp
  have h2: "callTest demoEnv (test (mkTask ''a'' False 0 10)) (dmMessage ''hi'') = Inl (Thrown 0)"
    by (simp add: demoEnv_def mkTask_def)
  have h3: "snd (checkTasks demoEnv raisingTasks (dmMessage ''hi'') False)
       = Inr \<lparr> match = True, tmMatching = [mkTask ''b'' False 2 11],
               tmNotMatching = [mkTask ''a'' False 0 10] \<rparr>"
    by code_simp
  from test_raise_as_false [of demoEnv raisingTasks "dmMessage ''hi''" False
      "mkTask ''a'' False 0 10" "Thrown 0"] h1 h2 h3
  show ?thesis by simp
qed

lemma checkTaskPermissions_unresolved:
  "guild message = Some g \<Longrightarrow> member message = None \<Longrightarrow>
     checkTaskPermissions s taskObj message
       = Inl (case getModRoles s g of Inl e \<Rightarrow> e | Inr _ \<Rightarrow> Error ''Should be unreachable'')"
  by (simp add: checkTaskPermissions_def lookupModRoles_def split: sum.splits)

lemma partitionTasks_unresolved:
  "guild message = Some g \<Longrightarrow> member message = None \<Longrightarrow>
   \<exists>t \<in> set ts. callTest env (test t) message = Inr True \<Longrightarrow>
     partitionTasks env s message x ts ls ctx
       = Inl (case getModRoles s g of Inl e \<Rightarrow> e | Inr _ \<Rightarrow> Error ''Should be unreachable'')"
proof (induction ts arbitrary: ls ctx)
  case Nil
  then show ?case by simp
next
  case (Cons t ts)
  show ?case
  proof (cases "testResultOf env t message")
    case True
    then show ?thesis
      using checkTaskPermissions_unresolved [OF Cons.prems(1,2), of s t] by simp
  next
    case False
    then have "callTest env (test t) message \<noteq> Inr True"
      by (auto simp: testResultOf_def)
    with Cons.prems(3) have "\<exists>t \<in> set ts. callTest env (test t) message = Inr True"
      by auto
    from Cons.IH [OF Cons.prems(1,2) this] False show ?thesis by simp
  qed
qed

text \<open>
  C10. On a guild message whose member is not resolved, \<^verbatim>\<open>checkTasks\<close> rejects as soon
  as one registered task's test returns true, and runs no task and fetches no member:
  the error is \<^verbatim>\<open>Should be unreachable\<close>, thrown by \<^verbatim>\<open>checkTaskPermissions\<close> (or what
  the moderator-role getter threw, when it throws first). \<^verbatim>\<open>checkCommand\<close> on such a
  message begins a match by fetching the member.
\<close>

theorem tasks_unresolved_member_rejects:
  "guild message = Some g \<Longrightarrow> member message = None \<Longrightarrow>
   taskObj \<in> set (tasks st) \<Longrightarrow> callTest env (test taskObj) message = Inr True \<Longrightarrow>
     checkTasks env st message x
       = ([], Inl (case getModRoles (settings st) g of
                     Inl e \<Rightarrow> e | Inr _ \<Rightarrow> Error ''Should be unreachable''))
     \<and> (findPrefix (content message) (commands st) (validPrefixes st message) \<noteq> None \<longrightarrow>
          (\<exists>evs. fst (snd (checkCommand env st message))
                   = MemberFetched g (authorId message) # evs))"
proof
  assume a: "guild message = Some g" "member message = None"
    "taskObj \<in> set (tasks st)" "callTest env (test taskObj) message = Inr True"
  then have "\<exists>t \<in> set (tasks st). callTest env (test t) message = Inr True" by blast
  from partitionTasks_unresolved [OF a(1,2) this]
  show "checkTasks env st message x
       = ([], Inl (case getModRoles (settings st) g of
                     Inl e \<Rightarrow> e | Inr _ \<Rightarrow> Error ''Should be unreachable''))"
    by (simp add: checkTasks_def)
  show "findPrefix (content message) (commands st) (validPrefixes st message) \<noteq> None \<longrightarrow>
          (\<exists>evs. fst (snd (checkCommand env st message))
                   = MemberFetched g (authorId message) # evs)"
    using a(1,2)
    by (auto simp: checkCommand_def runMatched_def resolveMember_def Let_def
        split: option.splits prod.splits sum.splits)
qed


theorem tasks_unresolved_member_rejects_witness:
  "guild (guildMessage ''!ping'') = Some ''g1''
   \<and> member (guildMessage ''!ping'') = None
   \<and> mkTask ''a'' True 2 10 \<in> set (tasks demoState)
   \<and> callTest demoEnv (test (mkTask ''a'' True 2 10)) (guildMessage ''!ping'') = Inr True
   \<and> findPrefix (content (guildMessage ''!ping'')) (commands demoState)
        (validPrefixes demoState (guildMessage ''!ping'')) \<noteq> None
   \<and> checkTasks demoEnv demoState (guildMessage ''!ping'') False
        = ([], Inl (Error ''Should be unreachable''))
   \<and> (\<exists>evs. fst (snd (checkCommand demoEnv demoState (guildMessage ''!ping'')))
              = MemberFetched ''g1'' ''user'' # evs)"
proof -
  have h1: "guild (guildMessage ''!ping'') = Some ''g1''"
    by (simp add: guildMessage_def)
  have h2: "member (guildMessage ''!ping'') = None"
    by (simp add: guildMessage_def dmMessage_def)
  have h3: "mkTask ''a'' True 2 10 \<in> set (tasks demoState)"
    by code_simp
  have h4: "callTest demoEnv (test (mkTask ''a'' True 2 10)) (guildMessage ''!ping'') = Inr True"
    by (simp add: demoEnv_def mkTask_def)
  have h5: "findPrefix (content (guildMessage ''!ping'')) (commands demoState)
        (validPrefixes demoState (guildMessage ''!ping'')) \<noteq> None"
    by code_simp
  have h6: "getModRoles (settings demoState) ''g1'' = Inr (RoleList [])"
    by code_simp
  have h7: "authorId (guildMessage ''!ping'') = ''user''"
    by (simp add: guildMessage_def dmMessage_def)
  from tasks_unresolved_member_rejects [OF h1 h2 h3 h4, of False] h1 h2 h3 h4 h5 h6 h7
  show ?thesis by simp
qed


section \<open>Properties of checkCommand\<close>

lemma findVariation_Some:
  "findVariation str p vs = Some v \<Longrightarrow> v \<in> set vs \<and> variationMatches str p v"
  by (induction vs) (auto split: if_splits)

lemma findVariation_None:
  "findVariation str p vs = None \<longleftrightarrow> (\<forall>v \<in> set vs. \<not> variationMatches str p v)"
  by (induction vs) auto

lemma findCommand_Some:
  "findCommand str p cs = Some (c, v) \<Longrightarrow>
     c \<in> set cs \<and> v \<in> set (Command.command c # Command.aliases c) \<and> variationMatches str p v"
proof (induction cs)
  case Nil
  then show ?case by simp
next
  case (Cons a cs)
  show ?case
  proof (cases "findVariation str p (Command.command a # Command.aliases a)")
    case None
    with Cons show ?thesis by simp
  next
    case (Some w)
    with Cons.prems have "c = a" "v = w" by simp_all
    with findVariation_Some [OF Some] show ?thesis by simp
  qed
qed

lemma findCommand_None:
  "findCommand str p cs = None \<longleftrightarrow>
     (\<forall>c \<in> set cs. \<forall>v \<in> set (Command.command c # Command.aliases c). \<not> variationMatches str p v)"
proof (induction cs)
  case Nil
  show ?case by simp
next
  case (Cons a cs)
  show ?case
  proof (cases "findVariation str p (Command.command a # Command.aliases a)")
    case None
    then have "\<forall>v \<in> set (Command.command a # Command.aliases a). \<not> variationMatches str p v"
      by (simp only: findVariation_None)
    with None Cons.IH show ?thesis by simp
  next
    case (Some w)
    from findVariation_Some [OF Some] Some show ?thesis by auto
  qed
qed

lemma findPrefix_Some:
  "findPrefix str cs ps = Some (p, c, v) \<Longrightarrow>
     p \<in> set ps \<and> c \<in> set cs \<and> v \<in> set (Command.command c # Command.aliases c)
     \<and> variationMatches str p v"
proof (induction ps)
  case Nil
  then show ?case by simp
next
  case (Cons q ps)
  show ?case
  proof (cases "findCommand str q cs")
    case None
    with Cons show ?thesis by simp
  next
    case (Some cv)
    with Cons.prems have "cv = (c, v)" "q = p" by (auto split: prod.splits)
    with findCommand_Some [of str q cs c v] Some show ?thesis by simp
  qed
qed

lemma findPrefix_None:
  "findPrefix str cs ps = None \<longleftrightarrow>
     (\<forall>p \<in> set ps. \<forall>c \<in> set cs. \<forall>v \<in> set (Command.command c # Command.aliases c).
        \<not> variationMatches str p v)"
proof (induction ps)
  case Nil
  show ?case by simp
next
  case (Cons q ps)
  show ?case
  proof (cases "findCommand str q cs")
    case None
    then have "\<forall>c \<in> set cs. \<forall>v \<in> set (Command.command c # Command.aliases c).
        \<not> variationMatches str q v"
      by (simp only: findCommand_None)
    with None Cons.IH show ?thesis by simp
  next
    case (Some cv)
    obtain c v where cv: "cv = (c, v)" by (cases cv)
    from findCommand_Some [of str q cs c v] Some cv
    show ?thesis by auto
  qed
qed

lemma lookupModRoles_globalPrefixes:
  "lookupModRoles (s\<lparr>globalPrefixes := ps\<rparr>) m = lookupModRoles s m"
  by (simp add: lookupModRoles_def split: option.splits)

lemma checkCommandPermissions_globalPrefixes:
  "checkCommandPermissions (s\<lparr>globalPrefixes := ps\<rparr>) c m = checkCommandPermissions s c m"
  by (simp add: checkCommandPermissions_def lookupModRoles_globalPrefixes Let_def
      cong: sum.case_cong if_cong split del: if_split)

lemma checkCommandPermissions_conjunction:
  "checkCommandPermissions s c m = Inr checks \<Longrightarrow>
     passChecks checks
       = (passAdminCheck checks \<and> passModCheck checks \<and> passBotCheck checks
          \<and> passChannelTypeCheck checks \<and> passOwnerCheck checks \<and> passSelfCheck checks)"
  by (auto simp: checkCommandPermissions_def Let_def split: sum.splits if_splits)

lemma checkCommand_settings:
  "settings (fst (checkCommand env st message))
     = (settings st)\<lparr>globalPrefixes := validPrefixes st message\<rparr>"
  and checkCommand_commands: "commands (fst (checkCommand env st message)) = commands st"
  by (simp_all add: checkCommand_def Let_def split: option.splits prod.splits)

lemma checkCommand_NoMatch:
  "findPrefix (content message) (commands st) (validPrefixes st message) = None \<Longrightarrow>
     snd (checkCommand env st message) = ([], Inr NoMatch)"
  by (simp add: checkCommand_def Let_def)

lemma checkCommand_Some:
  "findPrefix (content message) (commands st) (validPrefixes st message) = Some (p, c, v) \<Longrightarrow>
     snd (checkCommand env st message) = runMatched env (settings st) message p c v"
  by (simp add: checkCommand_def Let_def runMatched_def checkCommandPermissions_globalPrefixes)

lemma runMatched_checked:
  "resolveMember env message = (evs0, Inr message') \<Longrightarrow>
   checkCommandPermissions s c message' = Inr checks \<Longrightarrow>
     runMatched env s message p c v
       = (evs0 @ (if passChecks checks
                  then [CommandRun c message' (commandContext message' p c v)] else []),
          if passChecks checks
          then (case callCommandRun env (Command.run c) message' (commandContext message' p c v) of
                  Some e \<Rightarrow> Inl e
                | None \<Rightarrow> Inr (Match v checks c))
          else Inr (Match v checks c))"
  by (simp add: runMatched_def Let_def)

lemma resolveMember_events:
  "resolveMember env message = (evs, r) \<Longrightarrow> ev \<in> set evs \<Longrightarrow>
     ev = MemberFetched (the (guild message)) (authorId message)"
  by (auto simp: resolveMember_def split: option.splits if_splits)

lemma resolveMember_content:
  "resolveMember env message = (evs, Inr message') \<Longrightarrow> content message' = content message"
  by (auto simp: resolveMember_def split: option.splits if_splits sum.splits)

text \<open>
  C3. When no prefix, command and variation match, \<^verbatim>\<open>checkCommand\<close> returns
  \<^verbatim>\<open>{match: false}\<close> and runs nothing. When the search stops at a prefix \<open>p\<close>, a command
  \<open>c\<close> and a variation \<open>v\<close>, and the member fetch and the permission check return, the
  command's \<^verbatim>\<open>run\<close> is called if and only if \<^verbatim>\<open>passChecks\<close>, the conjunction of the
  six checks, is true, and the call
  returns the match with \<open>v\<close>, the full record of checks and \<open>c\<close>, both when the checks
  fail and when they pass and \<^verbatim>\<open>run\<close> returns.
\<close>

theorem checkCommand_run_iff_pass:
  "((\<forall>p \<in> set (validPrefixes st message). \<forall>c \<in> set (commands st).
       \<forall>v \<in> set (Command.command c # Command.aliases c).
         \<not> variationMatches (content message) p v) \<longrightarrow>
      snd (checkCommand env st message) = ([], Inr NoMatch))
   \<and> (findPrefix (content message) (commands st) (validPrefixes st message) = Some (p, c, v) \<longrightarrow>
      resolveMember env message = (evs0, Inr message') \<longrightarrow>
      checkCommandPermissions (settings st) c message' = Inr checks \<longrightarrow>
        ((\<exists>c' m ctx. CommandRun c' m ctx \<in> set (fst (snd (checkCommand env st message))))
           \<longleftrightarrow> passChecks checks)
        \<and> fst (snd (checkCommand env st message))
            = evs0 @ (if passChecks checks
                      then [CommandRun c message' (commandContext message' p c v)] else [])
        \<and> (\<not> passChecks checks
             \<or> callCommandRun env (Command.run c) message' (commandContext message' p c v) = None
           \<longrightarrow> snd (snd (checkCommand env st message)) = Inr (Match v checks c))
        \<and> p \<in> set (validPrefixes st message) \<and> c \<in> set (commands st)
        \<and> v \<in> set (Command.command c # Command.aliases c)
        \<and> variationMatches (content message) p v
        \<and> passChecks checks
            = (passAdminCheck checks \<and> passModCheck checks \<and> passBotCheck checks
               \<and> passChannelTypeCheck checks \<and> passOwnerCheck checks
               \<and> passSelfCheck checks))"
proof -
  have none: "snd (checkCommand env st message) = ([], Inr NoMatch)"
    if "\<forall>p \<in> set (validPrefixes st message). \<forall>c \<in> set (commands st).
       \<forall>v \<in> set (Command.command c # Command.aliases c).
         \<not> variationMatches (content message) p v"
    using that checkCommand_NoMatch [of message st env]
    by (simp only: findPrefix_None)
  have some: "((\<exists>c' m ctx. CommandRun c' m ctx \<in> set (fst (snd (checkCommand env st message))))
           \<longleftrightarrow> passChecks checks)
        \<and> fst (snd (checkCommand env st message))
            = evs0 @ (if passChecks checks
                      then [CommandRun c message' (commandContext message' p c v)] else [])
        \<and> (\<not> passChecks checks
             \<or> callCommandRun env (Command.run c) message' (commandContext message' p c v) = None
           \<longrightarrow> snd (snd (checkCommand env st message)) = Inr (Match v checks c))
        \<and> p \<in> set (validPrefixes st message) \<and> c \<in> set (commands st)
        \<and> v \<in> set (Command.command c # Command.aliases c)
        \<and> variationMatches (content message) p v
        \<and> passChecks checks
            = (passAdminCheck checks \<and> passModCheck checks \<and> passBotCheck checks
               \<and> passChannelTypeCheck checks \<and> passOwnerCheck checks
               \<and> passSelfCheck checks)"
    if hit: "findPrefix (content message) (commands st) (validPrefixes st message) = Some (p, c, v)"
      and res: "resolveMember env message = (evs0, Inr message')"
      and perm: "checkCommandPermissions (settings st) c message' = Inr checks"
  proof -
    have out: "snd (checkCommand env st message)
       = (evs0 @ (if passChecks checks
                  then [CommandRun c message' (commandContext message' p c v)] else []),
          if passChecks checks
          then (case callCommandRun env (Command.run c) message' (commandContext message' p c v) of
                  Some e \<Rightarrow> Inl e
                | None \<Rightarrow> Inr (Match v checks c))
          else Inr (Match v checks c))"
      using checkCommand_Some [OF hit, of env] runMatched_checked [OF res perm, of p v] by simp
    have fetched: "\<forall>ev \<in> set evs0. \<forall>c' m ctx. ev \<noteq> CommandRun c' m ctx"
      using resolveMember_events [OF res] by auto
    have evs: "fst (snd (checkCommand env st message))
            = evs0 @ (if passChecks checks
                      then [CommandRun c message' (commandContext message' p c v)] else [])"
      using out by simp
    have iff: "(\<exists>c' m ctx. CommandRun c' m ctx \<in> set (fst (snd (checkCommand env st message))))
           \<longleftrightarrow> passChecks checks"
      using fetched by (auto simp: evs)
    have ret: "\<not> passChecks checks
             \<or> callCommandRun env (Command.run c) message' (commandContext message' p c v) = None
           \<longrightarrow> snd (snd (checkCommand env st message)) = Inr (Match v checks c)"
      using out by auto
    from iff evs ret findPrefix_Some [OF hit] checkCommandPermissions_conjunction [OF perm]
    show ?thesis by blast
  qed
  from none some show ?thesis by blast
qed

theorem checkCommand_run_iff_pass_witness:
  "findPrefix (content (dmMessage ''!Ban  x'')) (commands demoState)
       (validPrefixes demoState (dmMessage ''!Ban  x''))
     = Some (''!'', mkCommand ''ban'' [''b''] 1, ''ban'')
   \<and> resolveMember demoEnv (dmMessage ''!Ban  x'') = ([], Inr (dmMessage ''!Ban  x''))
   \<and> checkCommandPermissions (settings demoState) (mkCommand ''ban'' [''b''] 1)
        (dmMessage ''!Ban  x'') = Inr allPass
   \<and> passChecks allPass
   \<and> snd (checkCommand demoEnv demoState (dmMessage ''!Ban  x''))
       = ([CommandRun (mkCommand ''ban'' [''b''] 1) (dmMessage ''!Ban  x'')
             (commandContext (dmMessage ''!Ban  x'') ''!'' (mkCommand ''ban'' [''b''] 1) ''ban'')],
          Inr (Match ''ban'' allPass (mkCommand ''ban'' [''b''] 1)))
   \<and> findPrefix (content (dmMessage ''!shutdown'')) (commands demoState)
       (validPrefixes demoState (dmMessage ''!shutdown''))
     = Some (''!'', (mkCommand ''shutdown'' [] 4)\<lparr>PermFlags.ownerOnly := Some True\<rparr>, ''shutdown'')
   \<and> checkCommandPermissions (settings demoState)
        ((mkCommand ''shutdown'' [] 4)\<lparr>PermFlags.ownerOnly := Some True\<rparr>) (dmMessage ''!shutdown'')
       = Inr (allPass\<lparr>passChecks := False, passOwnerCheck := False\<rparr>)
   \<and> snd (checkCommand demoEnv demoState (dmMessage ''!shutdown''))
       = ([], Inr (Match ''shutdown'' (allPass\<lparr>passChecks := False, passOwnerCheck := False\<rparr>)
                     ((mkCommand ''shutdown'' [] 4)\<lparr>PermFlags.ownerOnly := Some True\<rparr>)))
   \<and> findPrefix (content (dmMessage ''!banana'')) (commands demoState)
       (validPrefixes demoState (dmMessage ''!banana'')) = None
   \<and> snd (checkCommand demoEnv demoState (dmMessage ''!banana'')) = ([], Inr NoMatch)"
proof -
  let ?m = "dmMessage ''!Ban  x''" and ?ban = "mkCommand ''ban'' [''b''] 1"
  let ?m2 = "dmMessage ''!shutdown''"
  let ?sd = "(mkCommand ''shutdown'' [] 4)\<lparr>PermFlags.ownerOnly := Some True\<rparr>"
  let ?denied = "allPass\<lparr>passChecks := False, passOwnerCheck := False\<rparr>"
  have a1: "findPrefix (content ?m) (commands demoState) (validPrefixes demoState ?m)
     = Some (''!'', ?ban, ''ban'')"
    by code_simp
  have a2: "resolveMember demoEnv ?m = ([], Inr ?m)"
    by (simp add: resolveMember_def dmMessage_def)
  have a3: "checkCommandPermissions (settings demoState) ?ban ?m = Inr allPass"
    by code_simp
  have a4: "passChecks allPass"
    by (simp add: allPass_def)
  have a5: "callCommandRun demoEnv (Command.run ?ban) ?m (commandContext ?m ''!'' ?ban ''ban'') = None"
    by (simp add: demoEnv_def)
  have b1: "findPrefix (content ?m2) (commands demoState) (validPrefixes demoState ?m2)
     = Some (''!'', ?sd, ''shutdown'')"
    by code_simp
  have b2: "resolveMember demoEnv ?m2 = ([], Inr ?m2)"
    by (simp add: resolveMember_def dmMessage_def)
  have b3: "checkCommandPermissions (settings demoState) ?sd ?m2 = Inr ?denied"
    by code_simp
  have b4: "\<not> passChecks ?denied"
    by simp
  have c1: "\<forall>p \<in> set (validPrefixes demoState (dmMessage ''!banana'')). \<forall>c \<in> set (commands demoState).
         \<forall>v \<in> set (Command.command c # Command.aliases c).
           \<not> variationMatches (content (dmMessage ''!banana'')) p v"
    by code_simp
  note A = checkCommand_run_iff_pass [of demoState ?m demoEnv "''!''" ?ban "''ban''" "[]" ?m allPass]
  note B = checkCommand_run_iff_pass [of demoState ?m2 demoEnv "''!''" ?sd "''shutdown''" "[]"
      ?m2 ?denied]
  note C = checkCommand_run_iff_pass [of demoState "dmMessage ''!banana''" demoEnv]
  from A a1 a2 a3 a4 a5 have r1: "snd (checkCommand demoEnv demoState ?m)
       = ([CommandRun ?ban ?m (commandContext ?m ''!'' ?ban ''ban'')],
          Inr (Match ''ban'' allPass ?ban))"
    by (simp add: prod_eq_iff)
  from B b1 b2 b3 b4 have r2: "snd (checkCommand demoEnv demoState ?m2)
       = ([], Inr (Match ''shutdown'' ?denied ?sd))"
    by (simp add: prod_eq_iff)
  from C c1 have r3: "snd (checkCommand demoEnv demoState (dmMessage ''!banana'')) = ([], Inr NoMatch)"
    by blast
  have c0: "findPrefix (content (dmMessage ''!banana'')) (commands demoState)
       (validPrefixes demoState (dmMessage ''!banana'')) = None"
    by code_simp
  from a1 a2 a3 a4 r1 b1 b3 r2 c0 r3 show ?thesis by blast
qed

lemma splitRuns_no_sep:
  "\<forall>ch \<in> set piece. \<not> C ch \<Longrightarrow> w \<in> set (splitRuns C piece s) \<Longrightarrow> ch \<in> set w \<Longrightarrow> \<not> C ch"
proof (induction C piece s arbitrary: w rule: splitRuns.induct)
  case (1 C piece)
  then show ?case by simp
next
  case (2 C piece c cs)
  show ?case
  proof (cases "C c")
    case True
    with "2.prems" have "w = rev piece \<or> w \<in> set (splitRuns C [] (dropWhile C cs))" by simp
    then show ?thesis
    proof
      assume "w = rev piece"
      with "2.prems" show ?thesis by simp
    next
      assume "w \<in> set (splitRuns C [] (dropWhile C cs))"
      from "2.IH"(1) [OF True _ this "2.prems"(3)] show ?thesis by simp
    qed
  next
    case False
    with "2.prems" have w: "w \<in> set (splitRuns C (c # piece) cs)" by simp
    from False "2.prems"(1) have "\<forall>ch \<in> set (c # piece). \<not> C ch" by simp
    from "2.IH"(2) [OF False this w "2.prems"(3)] show ?thesis .
  qed
qed

lemma splitRuns_concat:
  "concat (splitRuns C piece s) = rev piece @ filter (\<lambda>ch. \<not> C ch) s"
proof (induction C piece s rule: splitRuns.induct)
  case (1 C piece)
  show ?case by simp
next
  case (2 C piece c cs)
  have "filter (\<lambda>ch. \<not> C ch) (dropWhile C cs) = filter (\<lambda>ch. \<not> C ch) cs"
    by (induction cs) auto
  with 2 show ?case by simp
qed

lemma splitRuns_nonempty:
  "piece \<noteq> [] \<or> (s \<noteq> [] \<and> \<not> C (hd s)) \<Longrightarrow> s \<noteq> [] \<longrightarrow> \<not> C (last s) \<Longrightarrow>
     w \<in> set (splitRuns C piece s) \<Longrightarrow> w \<noteq> []"
proof (induction C piece s arbitrary: w rule: splitRuns.induct)
  case (1 C piece)
  then show ?case by auto
next
  case (2 C piece c cs)
  show ?case
  proof (cases "C c")
    case True
    with "2.prems"(1) have piece: "piece \<noteq> []" by simp
    from True "2.prems"(2) have cs: "cs \<noteq> []" "\<not> C (last cs)" by (auto split: if_splits)
    then have "last cs \<in> set cs" by simp
    with cs(2) have dw: "dropWhile C cs \<noteq> []" by (auto simp: dropWhile_eq_Nil_conv)
    then have hd: "\<not> C (hd (dropWhile C cs))" by (simp add: hd_dropWhile)
    have "last (dropWhile C cs) = last cs"
      using dw by (metis append_Nil2 last_appendR takeWhile_dropWhile_id)
    with cs(2) have lst: "dropWhile C cs \<noteq> [] \<longrightarrow> \<not> C (last (dropWhile C cs))" by simp
    from True "2.prems"(3) have "w = rev piece \<or> w \<in> set (splitRuns C [] (dropWhile C cs))"
      by simp
    then show ?thesis
    proof
      assume "w = rev piece"
      with piece show ?thesis by simp
    next
      assume "w \<in> set (splitRuns C [] (dropWhile C cs))"
      from "2.IH"(1) [OF True _ lst this] dw hd show ?thesis by simp
    qed
  next
    case False
    with "2.prems"(3) have w: "w \<in> set (splitRuns C (c # piece) cs)" by simp
    from "2.prems"(2) have "cs \<noteq> [] \<longrightarrow> \<not> C (last cs)" by (auto split: if_splits)
    from "2.IH"(2) [OF False _ this w] show ?thesis by simp
  qed
qed

lemma trim_ends:
  "trim s \<noteq> [] \<Longrightarrow> \<not> isWhiteSpace (hd (trim s)) \<and> \<not> isWhiteSpace (last (trim s))"
proof -
  let ?a = "dropWhile isWhiteSpace s"
  let ?b = "dropWhile isWhiteSpace (rev ?a)"
  assume ne: "trim s \<noteq> []"
  then have b: "?b \<noteq> []" by (simp add: trim_def)
  then have hb: "\<not> isWhiteSpace (hd ?b)" by (simp add: hd_dropWhile)
  from b have "rev ?a \<noteq> []" by (metis dropWhile.simps(1))
  then have a: "?a \<noteq> []" by simp
  then have ha: "\<not> isWhiteSpace (hd ?a)" by (simp add: hd_dropWhile)
  have "last (trim s) = hd ?b" using b by (simp add: trim_def last_rev)
  moreover have "hd (trim s) = last ?b" using b by (simp add: trim_def hd_rev)
  moreover have "last ?b = last (rev ?a)"
    using b by (metis append_Nil2 last_appendR takeWhile_dropWhile_id)
  moreover have "last (rev ?a) = hd ?a" using a by (simp add: last_rev)
  ultimately show ?thesis using ha hb by simp
qed

lemma space_isWhiteSpace: "isWhiteSpace (CHR '' '')"
  by (simp add: isWhiteSpace_def)

lemma argv_words:
  assumes "trim s \<noteq> []" and "w \<in> set (splitSpaces (trim s))"
  shows "w \<noteq> [] \<and> CHR '' '' \<notin> set w"
proof -
  from trim_ends [OF assms(1)] space_isWhiteSpace
  have ends: "hd (trim s) \<noteq> CHR '' ''" "last (trim s) \<noteq> CHR '' ''" by auto
  have "w \<noteq> []"
    using splitRuns_nonempty [of "[]" "trim s" "\<lambda>c. c = CHR '' ''" w] assms ends
    by (simp add: splitSpaces_def)
  moreover have "CHR '' '' \<notin> set w"
    using splitRuns_no_sep [of "[]" "\<lambda>c. c = CHR '' ''" w "trim s" "CHR '' ''"] assms(2)
    by (auto simp: splitSpaces_def)
  ultimately show ?thesis by simp
qed

text \<open>
  C6 (as amended). The context passed to \<^verbatim>\<open>run\<close> has \<^verbatim>\<open>argsOffset\<close> equal to the length
  of the matched variation plus the length of the prefix, \<^verbatim>\<open>args\<close> equal to the text of
  the message from that offset, trimmed, and \<^verbatim>\<open>argv\<close> equal to \<^verbatim>\<open>args\<close> split on runs
  of the space character U+0020 (empty when \<^verbatim>\<open>args\<close> is empty): its elements are
  not empty, hold no space, and together are \<^verbatim>\<open>args\<close> without its spaces.
\<close>

theorem command_context_fields:
  "CommandRun c m ctx \<in> set (fst (snd (checkCommand env st message))) \<Longrightarrow>
     (\<exists>p v. findPrefix (content message) (commands st) (validPrefixes st message) = Some (p, c, v)
        \<and> argsOffset ctx = length v + length p
        \<and> ctxCommand ctx = v \<and> ctxPrefix ctx = p \<and> ctxCommandObj ctx = c)
     \<and> args ctx = trim (slice (content message) (argsOffset ctx))
     \<and> argv ctx = (if args ctx = [] then [] else splitSpaces (args ctx))
     \<and> (\<forall>w \<in> set (argv ctx). w \<noteq> [] \<and> CHR '' '' \<notin> set w)
     \<and> concat (argv ctx) = filter (\<lambda>ch. ch \<noteq> CHR '' '') (args ctx)"
proof -
  assume ev: "CommandRun c m ctx \<in> set (fst (snd (checkCommand env st message)))"
  let ?found = "findPrefix (content message) (commands st) (validPrefixes st message)"
  have "?found \<noteq> None"
  proof
    assume "?found = None"
    then have "snd (checkCommand env st message) = ([], Inr NoMatch)"
      by (rule checkCommand_NoMatch)
    then have "fst (snd (checkCommand env st message)) = []" by simp
    with ev show False by simp
  qed
  then obtain p c' v where hit: "?found = Some (p, c', v)" by auto
  from ev checkCommand_Some [OF hit, of env]
  have inRun: "CommandRun c m ctx \<in> set (fst (runMatched env (settings st) message p c' v))"
    by simp
  obtain evs0 r0 where res: "resolveMember env message = (evs0, r0)"
    by (cases "resolveMember env message")
  have notFetch: "CommandRun c m ctx \<notin> set evs0"
    using resolveMember_events [OF res] by auto
  from inRun res notFetch obtain message' where r0: "r0 = Inr message'"
    by (cases r0) (auto simp: runMatched_def)
  from inRun res r0 notFetch obtain checks where
    perm: "checkCommandPermissions (settings st) c' message' = Inr checks"
    by (cases "checkCommandPermissions (settings st) c' message'") (auto simp: runMatched_def)
  from inRun notFetch runMatched_checked [OF res [unfolded r0] perm, where p = p and v = v]
  have eq: "c = c'" "m = message'" "ctx = commandContext message' p c' v"
    by (auto split: if_splits)
  have cont: "content message' = content message"
    using resolveMember_content [OF res [unfolded r0]] .
  have fields: "argsOffset ctx = length v + length p" "ctxCommand ctx = v" "ctxPrefix ctx = p"
    "ctxCommandObj ctx = c"
    "args ctx = trim (slice (content message) (argsOffset ctx))"
    "argv ctx = (if args ctx = [] then [] else splitSpaces (args ctx))"
    using eq cont by (simp_all add: commandContext_def Let_def)
  have words: "\<forall>w \<in> set (argv ctx). w \<noteq> [] \<and> CHR '' '' \<notin> set w"
    using fields(5,6) argv_words [of "slice (content message) (argsOffset ctx)"] by auto
  have cat: "concat (argv ctx) = filter (\<lambda>ch. ch \<noteq> CHR '' '') (args ctx)"
    using fields(6) by (simp add: splitSpaces_def splitRuns_concat)
  from hit eq(1) fields words cat show ?thesis by blast
qed

theorem command_context_fields_witness:
  "CommandRun (mkCommand ''ping'' [] 3) (dmMessage ''!PING  a b   c '')
      \<lparr> argsOffset = 5, args = ''a b   c'', argv = [''a'', ''b'', ''c''], ctxCommand = ''ping'',
        ctxPrefix = ''!'', ctxCommandObj = mkCommand ''ping'' [] 3 \<rparr>
     \<in> set (fst (snd (checkCommand demoEnv demoState (dmMessage ''!PING  a b   c ''))))
   \<and> findPrefix (content (dmMessage ''!PING  a b   c '')) (commands demoState)
        (validPrefixes demoState (dmMessage ''!PING  a b   c ''))
       = Some (''!'', mkCommand ''ping'' [] 3, ''ping'')
   \<and> trim (slice (content (dmMessage ''!PING  a b   c '')) 5) = ''a b   c''
   \<and> splitSpaces ''a b   c'' = [''a'', ''b'', ''c'']"
proof -
  let ?m = "dmMessage ''!PING  a b   c ''" and ?ping = "mkCommand ''ping'' [] 3"
  let ?ctx = "\<lparr> argsOffset = 5, args = ''a b   c'', argv = [''a'', ''b'', ''c''],
        ctxCommand = ''ping'', ctxPrefix = ''!'', ctxCommandObj = ?ping \<rparr>"
  have h: "CommandRun ?ping ?m ?ctx \<in> set (fst (snd (checkCommand demoEnv demoState ?m)))"
    by code_simp
  have f: "findPrefix (content ?m) (commands demoState) (validPrefixes demoState ?m)
       = Some (''!'', ?ping, ''ping'')"
    by code_simp
  from command_context_fields [OF h] f
  have "trim (slice (content ?m) 5) = ''a b   c'' \<and> splitSpaces ''a b   c'' = [''a'', ''b'', ''c'']"
    by simp
  with h f show ?thesis by simp
qed

text \<open>
  The claim as stated, with a split on runs of whitespace: a tab inside the arguments
  does not separate them.
\<close>

theorem command_context_fields_counterexample:
  "fst (snd (checkCommand demoEnv demoState (dmMessage (''!ping a'' @ [CHR 0x09] @ ''b''))))
     = [CommandRun (mkCommand ''ping'' [] 3) (dmMessage (''!ping a'' @ [CHR 0x09] @ ''b''))
         \<lparr> argsOffset = 5, args = ''a'' @ [CHR 0x09] @ ''b'', argv = [''a'' @ [CHR 0x09] @ ''b''],
           ctxCommand = ''ping'', ctxPrefix = ''!'', ctxCommandObj = mkCommand ''ping'' [] 3 \<rparr>]
   \<and> splitWhiteSpace (''a'' @ [CHR 0x09] @ ''b'') = [''a'', ''b'']
   \<and> [''a'' @ [CHR 0x09] @ ''b''] \<noteq> splitWhiteSpace (''a'' @ [CHR 0x09] @ ''b'')"
  by code_simp

text \<open>
  C4 (the code at the failing input). \<^verbatim>\<open>checkCommand\<close> brings the text of the message
  to lower case and compares it with the prefix as it is stored, and the setters store a
  prefix as given. With the prefix \<open>B!\<close> neither \<open>B!ban\<close> nor \<open>b!ban\<close> matches the command
  \<open>ban\<close>.
\<close>

theorem uppercase_prefix_evaluation:
  "getGlobalPrefixes upperPrefixState = [''B!'']
   \<and> mkCommand ''ban'' [''b''] 1 \<in> set (commands upperPrefixState)
   \<and> matchesIgnoringCase ''B!ban'' ''B!'' ''ban''
   \<and> \<not> variationMatches ''B!ban'' ''B!'' ''ban''
   \<and> snd (checkCommand demoEnv upperPrefixState (dmMessage ''B!ban'')) = ([], Inr NoMatch)
   \<and> snd (checkCommand demoEnv upperPrefixState (dmMessage ''b!ban'')) = ([], Inr NoMatch)"
  by code_simp

text \<open>Where prefix and variation are in lower case, the two notions agree.\<close>

lemma variationMatches_lowercase:
  "toLowerCase (p @ v) = p @ v \<Longrightarrow> variationMatches str p v = matchesIgnoringCase str p v"
  by (simp add: variationMatches_def matchesIgnoringCase_def)


section \<open>Properties of registration\<close>

lemma normaliseAliases_cases:
  "normaliseAliases (CommandImport.aliases f)
     = (if badAliases f then Inl (Error ''Command aliases must be strings'')
        else Inr (aliasesOf f))"
  by (simp add: normaliseAliases_def badAliases_def aliasesOf_def split: jsval.splits)

lemma commands_step_fail:
  "failsValidation f seen \<Longrightarrow>
     \<exists>e. registerCommandsLoop (f # rest) cmds seen d r = (cmds, Inl e)"
  by (auto simp: failsValidation_def skipped_def normaliseAliases_cases Let_def
      variationsOfImport_def find_None_iff split: option.splits)

lemma commands_step_skip:
  "\<not> failsValidation f seen \<Longrightarrow> skipped f \<Longrightarrow>
     registerCommandsLoop (f # rest) cmds seen d r
       = registerCommandsLoop rest cmds seen (d + 1) r"
  by (auto simp: failsValidation_def skipped_def Let_def)

lemma commands_step_accept:
  "\<not> failsValidation f seen \<Longrightarrow> \<not> skipped f \<Longrightarrow>
     registerCommandsLoop (f # rest) cmds seen d r
       = registerCommandsLoop rest
           (cmds @ [accepted f (normalise (CommandImport.command f)) (aliasesOf f)])
           (seen @ variationsOfImport f) d (r + 1)"
proof -
  assume ok: "\<not> failsValidation f seen" and ns: "\<not> skipped f"
  then have str: "isString (CommandImport.command f)" and al: "\<not> badAliases f"
    and fresh: "\<forall>v \<in> set (variationsOfImport f). v \<notin> set seen"
    by (auto simp: failsValidation_def)
  from fresh have "find (\<lambda>v. v \<in> set seen)
      (normalise (CommandImport.command f) # aliasesOf f) = None"
    by (simp add: find_None_iff variationsOfImport_def)
  with str al ns show ?thesis
    by (simp add: skipped_def normaliseAliases_cases Let_def variationsOfImport_def)
qed

lemma acceptedOf_Cons:
  "acceptedOf (f # fs)
     = (if skipped f then acceptedOf fs
        else accepted f (normalise (CommandImport.command f)) (aliasesOf f) # acceptedOf fs)"
  by (simp add: acceptedOf_def)

lemma seenBefore_Cons:
  "seenBefore names (f # fs)
     = (if skipped f then seenBefore names fs
        else seenBefore (names @ variationsOfImport f) fs)"
  by (simp add: seenBefore_def)

lemma commands_loop_failure:
  "registerCommandsLoop files cmds seen d r = (cmds', Inl e) \<Longrightarrow>
     \<exists>k < length files.
        cmds' = cmds @ acceptedOf (take k files)
        \<and> (\<exists>info. registerCommandsLoop (take k files) cmds seen d r = (cmds', Inr info))
        \<and> failsValidation (files ! k) (seenBefore seen (take k files))"
proof (induction files arbitrary: cmds seen d r)
  case Nil
  then show ?case by simp
next
  case (Cons f rest)
  show ?case
  proof (cases "failsValidation f seen")
    case True
    from commands_step_fail [OF True, of rest cmds d r] Cons.prems have "cmds' = cmds" by auto
    with True show ?thesis
      by (intro exI [of _ 0]) (simp add: acceptedOf_def seenBefore_def)
  next
    case ok: False
    show ?thesis
    proof (cases "skipped f")
      case True
      from Cons.prems commands_step_skip [OF ok True, of rest cmds d r]
      have "registerCommandsLoop rest cmds seen (d + 1) r = (cmds', Inl e)" by simp
      from Cons.IH [OF this] obtain k info where k: "k < length rest"
        "cmds' = cmds @ acceptedOf (take k rest)"
        "registerCommandsLoop (take k rest) cmds seen (d + 1) r = (cmds', Inr info)"
        "failsValidation (rest ! k) (seenBefore seen (take k rest))"
        by blast
      show ?thesis
        using k True commands_step_skip [OF ok True, of "take k rest" cmds d r]
        by (intro exI [of _ "Suc k"]) (simp add: acceptedOf_Cons seenBefore_Cons)
    next
      case False
      let ?a = "accepted f (normalise (CommandImport.command f)) (aliasesOf f)"
      from Cons.prems commands_step_accept [OF ok False, of rest cmds d r]
      have "registerCommandsLoop rest (cmds @ [?a]) (seen @ variationsOfImport f) d (r + 1)
              = (cmds', Inl e)" by simp
      from Cons.IH [OF this] obtain k info where k: "k < length rest"
        "cmds' = (cmds @ [?a]) @ acceptedOf (take k rest)"
        "registerCommandsLoop (take k rest) (cmds @ [?a]) (seen @ variationsOfImport f) d (r + 1)
           = (cmds', Inr info)"
        "failsValidation (rest ! k) (seenBefore (seen @ variationsOfImport f) (take k rest))"
        by blast
      show ?thesis
        using k False commands_step_accept [OF ok False, of "take k rest" cmds d r]
        by (intro exI [of _ "Suc k"]) (simp add: acceptedOf_Cons seenBefore_Cons)
    qed
  qed
qed

lemma commands_loop_raises:
  "k < length files \<Longrightarrow> failsValidation (files ! k) (seenBefore seen (take k files)) \<Longrightarrow>
     \<exists>cmds' e. registerCommandsLoop files cmds seen d r = (cmds', Inl e)"
proof (induction files arbitrary: k cmds seen d r)
  case Nil
  then show ?case by simp
next
  case (Cons f rest)
  show ?case
  proof (cases "failsValidation f seen")
    case True
    from commands_step_fail [OF True, of rest cmds d r] show ?thesis by blast
  next
    case ok: False
    with Cons.prems obtain j where j: "k = Suc j"
      by (cases k) (auto simp: seenBefore_def)
    show ?thesis
    proof (cases "skipped f")
      case True
      from Cons.prems j True
      have "j < length rest" "failsValidation (rest ! j) (seenBefore seen (take j rest))"
        by (simp_all add: seenBefore_Cons)
      from Cons.IH [OF this, of cmds "d + 1" r] commands_step_skip [OF ok True, of rest cmds d r]
      show ?thesis by simp
    next
      case False
      from Cons.prems j False
      have "j < length rest"
        "failsValidation (rest ! j) (seenBefore (seen @ variationsOfImport f) (take j rest))"
        by (simp_all add: seenBefore_Cons)
      from Cons.IH [OF this, of _ d "r + 1"] commands_step_accept [OF ok False, of rest cmds d r]
      show ?thesis by simp
    qed
  qed
qed

lemma tasks_step_skip:
  "\<not> enabled f \<Longrightarrow>
     registerTasksLoop (f # rest) ts names d r = registerTasksLoop rest ts names (d + 1) r"
  by (simp add: enabled_def)

lemma tasks_step_duplicate:
  "enabled f \<Longrightarrow> name f \<in> set names \<Longrightarrow>
     registerTasksLoop (f # rest) ts names d r
       = (ts, Inl (Error (''Duplicate task: '' @ name f)))"
  by (simp add: enabled_def)

lemma tasks_step_accept:
  "enabled f \<Longrightarrow> name f \<notin> set names \<Longrightarrow>
     registerTasksLoop (f # rest) ts names d r
       = registerTasksLoop rest (ts @ [f]) (names @ [name f]) d (r + 1)"
  by (simp add: enabled_def)

lemma tasks_loop_failure:
  "registerTasksLoop files ts names d r = (ts', Inl e) \<Longrightarrow>
     \<exists>k < length files.
        ts' = ts @ filter enabled (take k files)
        \<and> (\<exists>info. registerTasksLoop (take k files) ts names d r = (ts', Inr info))
        \<and> enabled (files ! k)
        \<and> name (files ! k) \<in> set (names @ map name (filter enabled (take k files)))
        \<and> e = Error (''Duplicate task: '' @ name (files ! k))"
proof (induction files arbitrary: ts names d r)
  case Nil
  then show ?case by simp
next
  case (Cons f rest)
  show ?case
  proof (cases "enabled f")
    case False
    with Cons.prems have "registerTasksLoop rest ts names (d + 1) r = (ts', Inl e)"
      by (simp add: tasks_step_skip del: registerTasksLoop.simps)
    from Cons.IH [OF this] obtain k info where k: "k < length rest"
      "ts' = ts @ filter enabled (take k rest)"
      "registerTasksLoop (take k rest) ts names (d + 1) r = (ts', Inr info)"
      "enabled (rest ! k)"
      "name (rest ! k) \<in> set (names @ map name (filter enabled (take k rest)))"
      "e = Error (''Duplicate task: '' @ name (rest ! k))"
      by blast
    show ?thesis
      using k False tasks_step_skip [OF False, of "take k rest" ts names d r]
      by (intro exI [of _ "Suc k"]) (simp del: registerTasksLoop.simps)
  next
    case en: True
    show ?thesis
    proof (cases "name f \<in> set names")
      case True
      with en Cons.prems have "ts' = ts" "e = Error (''Duplicate task: '' @ name f)"
        by (simp_all add: tasks_step_duplicate del: registerTasksLoop.simps)
      with en True show ?thesis by (intro exI [of _ 0]) simp
    next
      case False
      with en Cons.prems
      have "registerTasksLoop rest (ts @ [f]) (names @ [name f]) d (r + 1) = (ts', Inl e)"
        by (simp add: tasks_step_accept del: registerTasksLoop.simps)
      from Cons.IH [OF this] obtain k info where k: "k < length rest"
        "ts' = (ts @ [f]) @ filter enabled (take k rest)"
        "registerTasksLoop (take k rest) (ts @ [f]) (names @ [name f]) d (r + 1) = (ts', Inr info)"
        "enabled (rest ! k)"
        "name (rest ! k) \<in> set ((names @ [name f]) @ map name (filter enabled (take k rest)))"
        "e = Error (''Duplicate task: '' @ name (rest ! k))"
        by blast
      show ?thesis
        using k False en tasks_step_accept [OF en False, of "take k rest" ts d r]
        by (intro exI [of _ "Suc k"]) (auto simp del: registerTasksLoop.simps)
    qed
  qed
qed

lemma tasks_loop_raises:
  "k < length files \<Longrightarrow> enabled (files ! k) \<Longrightarrow>
   name (files ! k) \<in> set (names @ map name (filter enabled (take k files))) \<Longrightarrow>
     \<exists>ts' e. registerTasksLoop files ts names d r = (ts', Inl e)"
proof (induction files arbitrary: k ts names d r)
  case Nil
  then show ?case by simp
next
  case (Cons f rest)
  show ?case
  proof (cases "enabled f \<and> name f \<in> set names")
    case True
    then show ?thesis by (simp add: tasks_step_duplicate del: registerTasksLoop.simps)
  next
    case ok: False
    with Cons.prems obtain j where j: "k = Suc j"
      by (cases k) auto
    show ?thesis
    proof (cases "enabled f")
      case False
      from Cons.prems j False
      have "j < length rest" "enabled (rest ! j)"
        "name (rest ! j) \<in> set (names @ map name (filter enabled (take j rest)))"
        by simp_all
      from Cons.IH [OF this, of ts "d + 1" r] False show ?thesis
        by (simp add: tasks_step_skip del: registerTasksLoop.simps)
    next
      case True
      with ok have fresh: "name f \<notin> set names" by simp
      from Cons.prems j True
      have "j < length rest" "enabled (rest ! j)"
        "name (rest ! j) \<in> set ((names @ [name f]) @ map name (filter enabled (take j rest)))"
        by simp_all
      from Cons.IH [OF this, of "ts @ [f]" d "r + 1"] True fresh
      show ?thesis by (simp add: tasks_step_accept del: registerTasksLoop.simps)
    qed
  qed
qed

text \<open>
  C2 (as amended). A registration call raises when a module of the batch fails
  validation. When it raises, the living list is the list before the call followed, in
  the order of the batch and unsorted, by the modules accepted before the failing one:
  the batch cut before that module registers without error, and nothing from the failing
  module on is added. The other list and the settings are as before. The same holds for
  tasks, whose only validation is the duplicate name.
\<close>

theorem registration_failure_state:
  "((\<exists>k < length files.
        failsValidation (files ! k)
          (seenBefore (map Command.command (commands st)) (take k files)))
      \<longrightarrow> (\<exists>e. snd (registerCommandsFolder files st) = Inl e))
   \<and> (snd (registerCommandsFolder files st) = Inl e \<longrightarrow>
        (\<exists>k < length files.
            commands (fst (registerCommandsFolder files st))
              = commands st @ acceptedOf (take k files)
            \<and> (\<exists>info. snd (registerCommandsFolder (take k files) st) = Inr info)
            \<and> failsValidation (files ! k)
                (seenBefore (map Command.command (commands st)) (take k files)))
        \<and> tasks (fst (registerCommandsFolder files st)) = tasks st
        \<and> settings (fst (registerCommandsFolder files st)) = settings st)
   \<and> ((\<exists>k < length tfiles.
          enabled (tfiles ! k)
          \<and> name (tfiles ! k)
              \<in> set (map name (tasks st) @ map name (filter enabled (take k tfiles))))
      \<longrightarrow> (\<exists>e. snd (registerTasksFolder tfiles st) = Inl e))
   \<and> (snd (registerTasksFolder tfiles st) = Inl e' \<longrightarrow>
        (\<exists>k < length tfiles.
            tasks (fst (registerTasksFolder tfiles st)) = tasks st @ filter enabled (take k tfiles)
            \<and> (\<exists>info. snd (registerTasksFolder (take k tfiles) st) = Inr info)
            \<and> e' = Error (''Duplicate task: '' @ name (tfiles ! k)))
        \<and> commands (fst (registerTasksFolder tfiles st)) = commands st
        \<and> settings (fst (registerTasksFolder tfiles st)) = settings st)"
proof -
  let ?names = "map Command.command (commands st)"
  let ?tnames = "map name (tasks st)"
  have c_raise: "\<exists>e. snd (registerCommandsFolder files st) = Inl e"
    if "\<exists>k < length files. failsValidation (files ! k) (seenBefore ?names (take k files))"
  proof -
    from that obtain k where "k < length files"
      "failsValidation (files ! k) (seenBefore ?names (take k files))" by blast
    from commands_loop_raises [OF this, of "commands st" 0 0]
    show ?thesis by (auto simp: registerCommandsFolder_def)
  qed
  have c_state: "(\<exists>k < length files.
            commands (fst (registerCommandsFolder files st))
              = commands st @ acceptedOf (take k files)
            \<and> (\<exists>info. snd (registerCommandsFolder (take k files) st) = Inr info)
            \<and> failsValidation (files ! k) (seenBefore ?names (take k files)))
        \<and> tasks (fst (registerCommandsFolder files st)) = tasks st
        \<and> settings (fst (registerCommandsFolder files st)) = settings st"
    if "snd (registerCommandsFolder files st) = Inl e"
  proof -
    obtain cmds' res where loop:
      "registerCommandsLoop files (commands st) ?names 0 0 = (cmds', res)"
      by (cases "registerCommandsLoop files (commands st) ?names 0 0")
    with that have res: "res = Inl e"
      by (cases res) (simp_all add: registerCommandsFolder_def)
    from commands_loop_failure [OF loop [unfolded res]] obtain k info where k:
      "k < length files" "cmds' = commands st @ acceptedOf (take k files)"
      "registerCommandsLoop (take k files) (commands st) ?names 0 0 = (cmds', Inr info)"
      "failsValidation (files ! k) (seenBefore ?names (take k files))"
      by blast
    have "snd (registerCommandsFolder (take k files) st) = Inr info"
      using k(3) by (simp add: registerCommandsFolder_def)
    moreover have "fst (registerCommandsFolder files st) = st\<lparr>commands := cmds'\<rparr>"
      using loop res by (simp add: registerCommandsFolder_def)
    ultimately show ?thesis using k by auto
  qed
  have t_raise: "\<exists>e. snd (registerTasksFolder tfiles st) = Inl e"
    if "\<exists>k < length tfiles. enabled (tfiles ! k)
          \<and> name (tfiles ! k) \<in> set (?tnames @ map name (filter enabled (take k tfiles)))"
  proof -
    from that obtain k where "k < length tfiles" "enabled (tfiles ! k)"
      "name (tfiles ! k) \<in> set (?tnames @ map name (filter enabled (take k tfiles)))" by blast
    from tasks_loop_raises [OF this, of "tasks st" 0 0]
    show ?thesis by (auto simp: registerTasksFolder_def)
  qed
  have t_state: "(\<exists>k < length tfiles.
            tasks (fst (registerTasksFolder tfiles st)) = tasks st @ filter enabled (take k tfiles)
            \<and> (\<exists>info. snd (registerTasksFolder (take k tfiles) st) = Inr info)
            \<and> e' = Error (''Duplicate task: '' @ name (tfiles ! k)))
        \<and> commands (fst (registerTasksFolder tfiles st)) = commands st
        \<and> settings (fst (registerTasksFolder tfiles st)) = settings st"
    if "snd (registerTasksFolder tfiles st) = Inl e'"
  proof -
    obtain ts' res where loop: "registerTasksLoop tfiles (tasks st) ?tnames 0 0 = (ts', res)"
      by (cases "registerTasksLoop tfiles (tasks st) ?tnames 0 0")
    with that have res: "res = Inl e'"
      by (cases res) (simp_all add: registerTasksFolder_def)
    from tasks_loop_failure [OF loop [unfolded res]] obtain k info where k:
      "k < length tfiles" "ts' = tasks st @ filter enabled (take k tfiles)"
      "registerTasksLoop (take k tfiles) (tasks st) ?tnames 0 0 = (ts', Inr info)"
      "e' = Error (''Duplicate task: '' @ name (tfiles ! k))"
      by blast
    have "snd (registerTasksFolder (take k tfiles) st) = Inr info"
      using k(3) by (simp add: registerTasksFolder_def)
    moreover have "fst (registerTasksFolder tfiles st) = st\<lparr>tasks := ts'\<rparr>"
      using loop res by (simp add: registerTasksFolder_def)
    ultimately show ?thesis using k by auto
  qed
  from c_raise c_state t_raise t_state show ?thesis by blast
qed

theorem registration_failure_state_witness:
  "(\<exists>k < length duplicateBatch.
        failsValidation (duplicateBatch ! k)
          (seenBefore (map Command.command (commands (initialState :: nat State)))
             (take k duplicateBatch)))
   \<and> snd (registerCommandsFolder duplicateBatch initialState)
       = Inl (Error ''Duplicate command: ban (alias of banlist)'')
   \<and> commands (fst (registerCommandsFolder duplicateBatch initialState))
       = [mkCommand ''ban'' [] 1]
   \<and> (\<exists>k < length duplicateTaskBatch.
          enabled (duplicateTaskBatch ! k)
          \<and> name (duplicateTaskBatch ! k)
              \<in> set (map name (tasks (initialState :: nat State))
                       @ map name (filter enabled (take k duplicateTaskBatch))))
   \<and> snd (registerTasksFolder duplicateTaskBatch initialState) = Inl (Error ''Duplicate task: b'')
   \<and> tasks (fst (registerTasksFolder duplicateTaskBatch initialState))
       = [mkTask ''b'' False 2 11, mkTask ''a'' True 2 10]
   \<and> (\<exists>k < length duplicateBatch.
         commands (fst (registerCommandsFolder duplicateBatch initialState))
           = commands (initialState :: nat State) @ acceptedOf (take k duplicateBatch))
   \<and> (\<exists>k < length duplicateTaskBatch.
         tasks (fst (registerTasksFolder duplicateTaskBatch initialState))
           = tasks (initialState :: nat State) @ filter enabled (take k duplicateTaskBatch))"
proof -
  let ?st = "initialState :: nat State"
  have h1: "\<exists>k < length duplicateBatch.
        failsValidation (duplicateBatch ! k)
          (seenBefore (map Command.command (commands ?st)) (take k duplicateBatch))"
    by (rule exI [of _ 1]) code_simp
  have h2: "snd (registerCommandsFolder duplicateBatch ?st)
       = Inl (Error ''Duplicate command: ban (alias of banlist)'')"
    by code_simp
  have h3: "\<exists>k < length duplicateTaskBatch.
          enabled (duplicateTaskBatch ! k)
          \<and> name (duplicateTaskBatch ! k)
              \<in> set (map name (tasks ?st) @ map name (filter enabled (take k duplicateTaskBatch)))"
    by (rule exI [of _ 2]) code_simp
  have h4: "snd (registerTasksFolder duplicateTaskBatch ?st) = Inl (Error ''Duplicate task: b'')"
    by code_simp
  have v1: "commands (fst (registerCommandsFolder duplicateBatch ?st)) = [mkCommand ''ban'' [] 1]"
    by code_simp
  have v2: "tasks (fst (registerTasksFolder duplicateTaskBatch ?st))
       = [mkTask ''b'' False 2 11, mkTask ''a'' True 2 10]"
    by code_simp
  note T = registration_failure_state [of duplicateBatch ?st
      "Error ''Duplicate command: ban (alias of banlist)''" duplicateTaskBatch
      "Error ''Duplicate task: b''"]
  from T h2 have c1: "\<exists>k < length duplicateBatch.
         commands (fst (registerCommandsFolder duplicateBatch ?st))
           = commands ?st @ acceptedOf (take k duplicateBatch)"
    by blast
  from T h4 have c2: "\<exists>k < length duplicateTaskBatch.
         tasks (fst (registerTasksFolder duplicateTaskBatch ?st))
           = tasks ?st @ filter enabled (take k duplicateTaskBatch)"
    by blast
  from h1 h2 h3 h4 v1 v2 c1 c2 show ?thesis by blast
qed

text \<open>
  The claim as stated, that the list is left as it was: a valid module before the
  failing one stays registered.
\<close>

theorem registration_all_or_nothing_counterexample:
  "snd (registerCommandsFolder
          [mkImport (JStr ''ban'') JUndefined 1, mkImport (JNum 5) JUndefined 2]
          (initialState :: nat State))
     = Inl (Error ''Command must be a string'')
   \<and> commands (initialState :: nat State) = []
   \<and> commands (fst (registerCommandsFolder
          [mkImport (JStr ''ban'') JUndefined 1, mkImport (JNum 5) JUndefined 2]
          (initialState :: nat State)))
       = [mkCommand ''ban'' [] 1]"
  by code_simp

section \<open>Properties of the order of the commands\<close>

lemma registered_sorted:
  "snd (registerCommandsFolder files st) = Inr info \<Longrightarrow>
     sorted (map (\<lambda>c. - int (length (Command.command c)))
               (commands (fst (registerCommandsFolder files st))))"
  by (auto simp: registerCommandsFolder_def sortCommands_def split: prod.splits sum.splits)

lemma findCommand_sorted:
  "sorted (map (\<lambda>c. - int (length (Command.command c))) cs) \<Longrightarrow> B \<in> set cs \<Longrightarrow>
   variationMatches str p (Command.command B) \<Longrightarrow>
     \<exists>c v. findCommand str p cs = Some (c, v) \<and> c \<in> set cs
        \<and> length (Command.command B) \<le> length (Command.command c)
        \<and> (c = B \<longrightarrow> v = Command.command B)"
proof (induction cs)
  case Nil
  then show ?case by simp
next
  case (Cons a cs)
  show ?case
  proof (cases "findVariation str p (Command.command a # Command.aliases a)")
    case (Some w)
    from Cons.prems(1,2) have len: "length (Command.command B) \<le> length (Command.command a)"
      by auto
    have "a = B \<longrightarrow> w = Command.command B"
      using Some Cons.prems(3) by auto
    with Some len show ?thesis by simp
  next
    case None
    with Cons.prems(3) have "B \<noteq> a" by auto
    with Cons.prems have "sorted (map (\<lambda>c. - int (length (Command.command c))) cs)" "B \<in> set cs"
      by simp_all
    from Cons.IH [OF this Cons.prems(3)] None show ?thesis by auto
  qed
qed

lemma findPrefix_first:
  "p \<in> set ps \<Longrightarrow>
   \<forall>q \<in> set (takeWhile (\<lambda>q. q \<noteq> p) ps). findCommand str q cs = None \<Longrightarrow>
   findCommand str p cs = Some (c, v) \<Longrightarrow>
     findPrefix str cs ps = Some (p, c, v)"
proof (induction ps)
  case Nil
  then show ?case by simp
next
  case (Cons a ps)
  show ?case
  proof (cases "a = p")
    case True
    with Cons.prems(3) show ?thesis by simp
  next
    case False
    with Cons.prems(2) have none: "findCommand str a cs = None" by simp
    from False Cons.prems have "p \<in> set ps"
      "\<forall>q \<in> set (takeWhile (\<lambda>q. q \<noteq> p) ps). findCommand str q cs = None"
      by simp_all
    from Cons.IH [OF this Cons.prems(3)] none show ?thesis by simp
  qed
qed

lemma checkCommand_returns_hit:
  "findPrefix (content message) (commands st) (validPrefixes st message) = Some (p, c, v) \<Longrightarrow>
   snd (snd (checkCommand env st message)) = Inr r \<Longrightarrow> \<exists>checks. r = Match v checks c"
proof -
  assume hit: "findPrefix (content message) (commands st) (validPrefixes st message) = Some (p, c, v)"
    and ret: "snd (snd (checkCommand env st message)) = Inr r"
  from ret checkCommand_Some [OF hit, of env]
  have "snd (runMatched env (settings st) message p c v) = Inr r" by simp
  then show ?thesis
    by (auto simp: runMatched_def Let_def split: prod.splits sum.splits if_splits option.splits)
qed

text \<open>
  C5 (as amended). After a registration that completes, the commands are sorted by
  descending length of the primary name. So for commands \<open>A\<close> and \<open>B\<close> of the registry with
  distinct names, the name of \<open>A\<close> a prefix of the name of \<open>B\<close>, and a message that
  invokes \<open>B\<close> through the prefix \<open>p\<close>, when no prefix listed before \<open>p\<close> matches any
  command: the search stops at \<open>p\<close> with a command whose name is at least as long as the
  name of \<open>B\<close>, never with \<open>A\<close>; it is \<open>B\<close>, matched by its name, when no other command
  with a name that long matches through \<open>p\<close>; and what \<^verbatim>\<open>checkCommand\<close> returns is the
  match of that command.
\<close>

theorem longer_name_wins:
  assumes reg: "snd (registerCommandsFolder files st0) = Inr info"
    and st: "st = fst (registerCommandsFolder files st0)"
    and A: "A \<in> set (commands st)" and B: "B \<in> set (commands st)"
    and distinct: "Command.command A \<noteq> Command.command B"
    and pre: "startsWith (Command.command B) (Command.command A)"
    and p: "p \<in> set (validPrefixes st message)"
    and invokes: "variationMatches (content message) p (Command.command B)"
    and first: "\<forall>q \<in> set (takeWhile (\<lambda>q. q \<noteq> p) (validPrefixes st message)).
                  findCommand (content message) q (commands st) = None"
  shows "\<exists>c v. findPrefix (content message) (commands st) (validPrefixes st message) = Some (p, c, v)
           \<and> length (Command.command B) \<le> length (Command.command c)
           \<and> c \<noteq> A
           \<and> (\<forall>r. snd (snd (checkCommand env st message)) = Inr r \<longrightarrow>
                 (\<exists>checks. r = Match v checks c))
           \<and> ((\<forall>c' \<in> set (commands st). c' \<noteq> B \<longrightarrow>
                   length (Command.command B) \<le> length (Command.command c') \<longrightarrow>
                   findVariation (content message) p
                     (Command.command c' # Command.aliases c') = None)
                \<longrightarrow> c = B \<and> v = Command.command B)"
proof -
  have sorted: "sorted (map (\<lambda>c. - int (length (Command.command c))) (commands st))"
    using registered_sorted [OF reg] st by simp
  from findCommand_sorted [OF sorted B invokes] obtain c v where cv:
    "findCommand (content message) p (commands st) = Some (c, v)" "c \<in> set (commands st)"
    "length (Command.command B) \<le> length (Command.command c)"
    "c = B \<longrightarrow> v = Command.command B"
    by blast
  have hit: "findPrefix (content message) (commands st) (validPrefixes st message) = Some (p, c, v)"
    using findPrefix_first [OF p first cv(1)] .
  have shorter: "length (Command.command A) < length (Command.command B)"
  proof (rule ccontr)
    assume "\<not> length (Command.command A) < length (Command.command B)"
    then have "take (length (Command.command A)) (Command.command B) = Command.command B"
      by simp
    with pre distinct show False by (simp add: startsWith_def)
  qed
  with cv(3) have notA: "c \<noteq> A" by auto
  have ret: "\<forall>r. snd (snd (checkCommand env st message)) = Inr r \<longrightarrow>
                 (\<exists>checks. r = Match v checks c)"
    using checkCommand_returns_hit [OF hit] by blast
  have only: "c = B \<and> v = Command.command B"
    if "\<forall>c' \<in> set (commands st). c' \<noteq> B \<longrightarrow>
          length (Command.command B) \<le> length (Command.command c') \<longrightarrow>
          findVariation (content message) p (Command.command c' # Command.aliases c') = None"
  proof -
    have some: "findVariation (content message) p (Command.command c # Command.aliases c) \<noteq> None"
      using findCommand_Some [OF cv(1)] by (simp only: findVariation_None) blast
    have "c = B"
    proof (rule ccontr)
      assume "c \<noteq> B"
      with bspec [OF that cv(2)] cv(3)
      have "findVariation (content message) p (Command.command c # Command.aliases c) = None"
        by (simp del: findVariation.simps)
      with some show False by (simp del: findVariation.simps)
    qed
    with cv(4) show ?thesis by simp
  qed
  show ?thesis
  proof (intro exI conjI)
    show "findPrefix (content message) (commands st) (validPrefixes st message) = Some (p, c, v)"
      by (rule hit)
    show "length (Command.command B) \<le> length (Command.command c)" by (rule cv(3))
    show "c \<noteq> A" by (rule notA)
    show "\<forall>r. snd (snd (checkCommand env st message)) = Inr r \<longrightarrow>
                 (\<exists>checks. r = Match v checks c)" by (rule ret)
    show "(\<forall>c' \<in> set (commands st). c' \<noteq> B \<longrightarrow>
                   length (Command.command B) \<le> length (Command.command c') \<longrightarrow>
                   findVariation (content message) p
                     (Command.command c' # Command.aliases c') = None)
                \<longrightarrow> c = B \<and> v = Command.command B"
      using only by blast
  qed
qed

theorem longer_name_wins_witness:
  "snd (registerCommandsFolder spacedBatch bangState) = Inr \<lparr> registered = 2, disabled = 0 \<rparr>
   \<and> commands (fst (registerCommandsFolder spacedBatch bangState))
       = [mkCommand ''ban list'' [] 2, mkCommand ''ban'' [] 1]
   \<and> ''ban'' \<noteq> ''ban list'' \<and> startsWith ''ban list'' ''ban''
   \<and> ''!'' \<in> set (validPrefixes (fst (registerCommandsFolder spacedBatch bangState))
                     (dmMessage ''!Ban List x''))
   \<and> variationMatches (content (dmMessage ''!Ban List x'')) ''!'' ''ban list''
   \<and> variationMatches (content (dmMessage ''!Ban List x'')) ''!'' ''ban''
   \<and> takeWhile (\<lambda>q. q \<noteq> ''!'')
         (validPrefixes (fst (registerCommandsFolder spacedBatch bangState))
            (dmMessage ''!Ban List x'')) = []
   \<and> snd (snd (checkCommand demoEnv (fst (registerCommandsFolder spacedBatch bangState))
              (dmMessage ''!Ban List x'')))
       = Inr (Match ''ban list'' allPass (mkCommand ''ban list'' [] 2))
   \<and> (\<exists>c v. findPrefix (content (dmMessage ''!Ban List x''))
                (commands (fst (registerCommandsFolder spacedBatch bangState)))
                (validPrefixes (fst (registerCommandsFolder spacedBatch bangState))
                   (dmMessage ''!Ban List x''))
              = Some (''!'', c, v)
            \<and> c \<noteq> mkCommand ''ban'' [] 1)"
proof -
  let ?st = "fst (registerCommandsFolder spacedBatch bangState)"
  let ?m = "dmMessage ''!Ban List x''"
  let ?A = "mkCommand ''ban'' [] 1" and ?B = "mkCommand ''ban list'' [] 2"
  have reg: "snd (registerCommandsFolder spacedBatch bangState)
      = Inr \<lparr> registered = 2, disabled = 0 \<rparr>"
    by code_simp
  have cmds: "commands ?st = [?B, ?A]"
    by code_simp
  have A: "?A \<in> set (commands ?st)" and B: "?B \<in> set (commands ?st)"
    by (simp_all add: cmds)
  have distinct: "Command.command ?A \<noteq> Command.command ?B"
    by (simp add: mkCommand_def)
  have pre: "startsWith (Command.command ?B) (Command.command ?A)"
    by (simp add: mkCommand_def startsWith_def)
  have p: "''!'' \<in> set (validPrefixes ?st ?m)"
    by code_simp
  have invokes: "variationMatches (content ?m) ''!'' (Command.command ?B)"
    by code_simp
  have alsoA: "variationMatches (content ?m) ''!'' ''ban''"
    by code_simp
  have first: "\<forall>q \<in> set (takeWhile (\<lambda>q. q \<noteq> ''!'') (validPrefixes ?st ?m)).
      findCommand (content ?m) q (commands ?st) = None"
    by code_simp
  have res: "snd (snd (checkCommand demoEnv ?st ?m)) = Inr (Match ''ban list'' allPass ?B)"
    by code_simp
  from longer_name_wins [OF reg refl A B distinct pre p invokes first, of demoEnv]
  have concl: "\<exists>c v. findPrefix (content ?m) (commands ?st) (validPrefixes ?st ?m)
        = Some (''!'', c, v) \<and> c \<noteq> ?A"
    by blast
  have d: "''ban'' \<noteq> ''ban list''" "startsWith ''ban list'' ''ban''"
    "variationMatches (content ?m) ''!'' ''ban list''"
    using distinct pre invokes by (simp_all add: mkCommand_def)
  have none_before: "takeWhile (\<lambda>q. q \<noteq> ''!'') (validPrefixes ?st ?m) = []"
    by code_simp
  from reg cmds d p alsoA none_before res concl show ?thesis by blast
qed

text \<open>
  The claim as stated, for any registered prefixes: the prefixes are the outer loop, so
  with the prefixes \<open>''\<close> and \<open>'bot '\<close> the message \<open>bot bots\<close>, which invokes \<open>bots\<close>
  through the second prefix, is matched to \<open>bot\<close> through the first.
\<close>

theorem longer_name_wins_counterexample:
  "commands twoPrefixState = [mkCommand ''bots'' [] 2, mkCommand ''bot'' [] 1]
   \<and> getGlobalPrefixes twoPrefixState = ['''', ''bot '']
   \<and> ''bot'' \<noteq> ''bots'' \<and> startsWith ''bots'' ''bot''
   \<and> variationMatches ''bot bots'' ''bot '' ''bots''
   \<and> snd (snd (checkCommand demoEnv twoPrefixState (dmMessage ''bot bots'')))
       = Inr (Match ''bot'' allPass (mkCommand ''bot'' [] 1))"
  by code_simp

end
